theory Spec2Isabelle
  imports Complex_Main
begin

unbundle bit_operations_syntax

section \<open>Conventions of the embedding\<close>

text \<open>
  The JavaScript sources are embedded as follows.
  \<^item> A \<^verbatim>\<open>BigInt\<close> is an \<^typ>\<open>int\<close>; \<^verbatim>\<open>&\<close>, \<^verbatim>\<open>|\<close>, \<^verbatim>\<open><<\<close>, \<^verbatim>\<open>>>\<close> on BigInts are
    \<open>AND\<close>, \<open>OR\<close>, \<open>push_bit\<close>, \<open>drop_bit\<close>.
  \<^item> A \<^verbatim>\<open>Number\<close> that holds an integer (bit widths, sizes, counters, \<^verbatim>\<open>lastUsed\<close>) is an
    \<^typ>\<open>int\<close> too; every such value is assumed to be below \<open>2^53\<close> in magnitude, where
    double arithmetic on integers is exact. The operator \<^verbatim>\<open>&\<close> on Numbers first converts
    both operands with ToInt32, which is written out (\<open>toInt32\<close>).
  \<^item> A \<^verbatim>\<open>Number\<close> that holds a fraction (the hit rate) is the \<^typ>\<open>rat\<close> that the double is;
    the rounding of each floating-point operation is written out (\<open>toDouble\<close>).
  \<^item> A string is a \<^typ>\<open>string\<close> whose characters are the code units \<open>U+0000\<close> to \<open>U+00FF\<close>.
  \<^item> \<^verbatim>\<open>throw new Error(msg)\<close> is the \<open>Inl\<close> branch of a sum type; the constructor records
    which message template was used and the values interpolated into it.
\<close>

datatype error =
    AddressEmpty                    \<comment> \<open>\<^verbatim>\<open>Address is empty\<close>\<close>
  | InvalidHexAddress string        \<comment> \<open>\<^verbatim>\<open>Invalid hex address: "${input}"\<close>\<close>
  | ExpectedPowerOfTwo int          \<comment> \<open>\<^verbatim>\<open>Expected power of two, got ${n}\<close>\<close>
  | InvalidInt string               \<comment> \<open>\<^verbatim>\<open>Invalid ${name}\<close> (parseIntStrict)\<close>
  | MissingNum string               \<comment> \<open>\<^verbatim>\<open>Missing ${name}\<close>\<close>
  | InvalidNum string string        \<comment> \<open>\<^verbatim>\<open>Invalid ${name}: "${s}"\<close>\<close>
  | NumSetsNotPowerOfTwo int        \<comment> \<open>\<^verbatim>\<open>Number of sets (${numSets}) is not a power of two. ...\<close>\<close>
  | ConfigError string              \<comment> \<open>the other messages of \<^verbatim>\<open>compute\<close>, which interpolate nothing\<close>
  | TypeError                       \<comment> \<open>property access on \<^verbatim>\<open>undefined\<close>\<close>

section \<open>Strings\<close>

definition isWhiteSpace :: "char \<Rightarrow> bool" where
  \<comment> \<open>the characters of \<^verbatim>\<open>\s\<close> and of \<^verbatim>\<open>trim()\<close> below \<open>U+0100\<close>\<close>
  "isWhiteSpace c = (c \<in> set [CHR 0x09, CHR 0x0A, CHR 0x0B, CHR 0x0C, CHR 0x0D, CHR 0x20, CHR 0xA0])"

definition trim :: "string \<Rightarrow> string" where
  "trim s = rev (dropWhile isWhiteSpace (rev (dropWhile isWhiteSpace s)))"

definition toLowerChar :: "char \<Rightarrow> char" where
  \<comment> \<open>\<^verbatim>\<open>toLowerCase\<close> on the letters A to Z. The letters beyond ASCII are left alone: neither
      they nor their lower-case forms are hexadecimal digits, \<^verbatim>\<open>x\<close>, \<^verbatim>\<open>_\<close> or white space,
      so no test made on the lowered string can tell the difference.\<close>
  "toLowerChar c =
     (case map_of (zip ''ABCDEFGHIJKLMNOPQRSTUVWXYZ'' ''abcdefghijklmnopqrstuvwxyz'') c of
        Some d \<Rightarrow> d | None \<Rightarrow> c)"

definition toUpperChar :: "char \<Rightarrow> char" where
  \<comment> \<open>\<^verbatim>\<open>toUpperCase\<close> on the letters a to z (flag strings)\<close>
  "toUpperChar c =
     (case map_of (zip ''abcdefghijklmnopqrstuvwxyz'' ''ABCDEFGHIJKLMNOPQRSTUVWXYZ'') c of
        Some d \<Rightarrow> d | None \<Rightarrow> c)"

definition isDecDigit :: "char \<Rightarrow> bool" where
  \<comment> \<open>the class \<^verbatim>\<open>[0-9]\<close>\<close>
  "isDecDigit c = (c \<in> set ''0123456789'')"

definition isHexLetter :: "char \<Rightarrow> bool" where
  \<comment> \<open>the class \<^verbatim>\<open>[a-f]\<close> under the flag \<^verbatim>\<open>i\<close>\<close>
  "isHexLetter c = (c \<in> set ''abcdefABCDEF'')"

definition isHexDigit :: "char \<Rightarrow> bool" where
  \<comment> \<open>the class \<^verbatim>\<open>[0-9a-f]\<close> under the flag \<^verbatim>\<open>i\<close>\<close>
  "isHexDigit c = (isDecDigit c \<or> isHexLetter c)"

fun indexOf :: "'a \<Rightarrow> 'a list \<Rightarrow> nat" where
  "indexOf x [] = 0"
| "indexOf x (y # ys) = (if x = y then 0 else Suc (indexOf x ys))"

definition digitVal :: "char \<Rightarrow> int" where
  \<comment> \<open>the value of a digit of a numeric literal, in any case\<close>
  "digitVal c = int (indexOf (toLowerChar c) ''0123456789abcdef'')"

definition digitsValue :: "int \<Rightarrow> string \<Rightarrow> int" where
  \<comment> \<open>the number a digit string denotes in the given base\<close>
  "digitsValue base s = foldl (\<lambda>acc c. acc * base + digitVal c) 0 s"

section \<open>lib/bit.js\<close>

definition strippedHex :: "string \<Rightarrow> string" where
  \<comment> \<open>what \<^verbatim>\<open>parseHexToBigInt\<close> tests and converts: the input trimmed and lowered, without
      underscores and white space, without one leading \<^verbatim>\<open>0x\<close>\<close>
  "strippedHex input =
     (let s = map toLowerChar (trim input);
          s1 = filter (\<lambda>c. c \<noteq> CHR ''_'') s;
          s2 = filter (\<lambda>c. \<not> isWhiteSpace c) s1
      in if take 2 s2 = ''0x'' then drop 2 s2 else s2)"

definition parseHexToBigInt :: "string \<Rightarrow> error + int" where
  "parseHexToBigInt input =
     (if map toLowerChar (trim input) = [] then Inl AddressEmpty
      else
        let s3 = strippedHex input
        in if \<not> (s3 \<noteq> [] \<and> list_all isHexDigit s3) then Inl (InvalidHexAddress input)
           else Inr (digitsValue 16 s3))"

definition toInt32 :: "int \<Rightarrow> int" where
  \<comment> \<open>ToInt32 of an integral Number: reduce modulo \<open>2^32\<close> into \<open>[-2^31, 2^31)\<close>\<close>
  "toInt32 x = signed_take_bit 31 x"

definition isPowerOfTwo :: "int \<Rightarrow> bool" where
  \<comment> \<open>\<^verbatim>\<open>Number.isInteger(n) && n > 0 && (n & (n - 1)) === 0\<close>; the argument is integral by its type\<close>
  "isPowerOfTwo n = (0 < n \<and> (toInt32 n AND toInt32 (n - 1)) = 0)"

function floorLog2 :: "int \<Rightarrow> int" where
  \<comment> \<open>the integer part of \<^verbatim>\<open>Math.log2(n)\<close> for \<open>n \<ge> 1\<close>\<close>
  "floorLog2 n = (if n < 2 then 0 else 1 + floorLog2 (n div 2))"
  by pat_completeness auto
termination
  by (relation "measure nat") auto

declare floorLog2.simps [simp del]

definition log2IntPow2 :: "int \<Rightarrow> error + int" where
  \<comment> \<open>\<^verbatim>\<open>Math.log2(n) | 0\<close>: the logarithm truncated, then ToInt32. An argument that passes
      \<open>isPowerOfTwo\<close> has at most one bit set among its low 32, so below \<open>2^53\<close> it is either
      a power of two or far enough from the next one for the rounding of \<^verbatim>\<open>Math.log2\<close> not to
      reach the truncation.\<close>
  "log2IntPow2 n =
     (if \<not> isPowerOfTwo n then Inl (ExpectedPowerOfTwo n) else Inr (toInt32 (floorLog2 n)))"

definition maskBits :: "int \<Rightarrow> int" where
  "maskBits bits = (if bits \<le> 0 then 0 else push_bit (nat bits) 1 - 1)"

definition clampBigIntToBits :: "int \<Rightarrow> int \<Rightarrow> int" where
  "clampBigIntToBits x bits = (if bits \<le> 0 then 0 else x AND maskBits bits)"

function hexDigits :: "int \<Rightarrow> string" where
  \<comment> \<open>\<^verbatim>\<open>x.toString(16).toUpperCase()\<close> for \<open>x \<ge> 0\<close>\<close>
  "hexDigits x =
     (if x < 16 then [''0123456789ABCDEF'' ! nat x]
      else hexDigits (x div 16) @ [''0123456789ABCDEF'' ! nat (x mod 16)])"
  by pat_completeness auto
termination
  by (relation "measure nat") auto

declare hexDigits.simps [simp del]

definition padStart :: "string \<Rightarrow> nat \<Rightarrow> char \<Rightarrow> string" where
  "padStart s n c = replicate (n - length s) c @ s"

definition toHex :: "int \<Rightarrow> int \<Rightarrow> string" where
  \<comment> \<open>for \<open>x \<ge> 0\<close>, the only values the simulators format\<close>
  "toHex x minNibbles =
     (let s = hexDigits x;
          s' = (if minNibbles > 0 then padStart s (nat minNibbles) (CHR ''0'') else s)
      in ''0x'' @ s')"

section \<open>Parsing of the text inputs\<close>

definition parseInt10 :: "string \<Rightarrow> int option" where
  \<comment> \<open>\<^verbatim>\<open>Number.parseInt(str, 10)\<close>, \<open>None\<close> for NaN: leading white space is skipped, one sign
      is read, then the longest run of decimal digits; what follows is ignored.\<close>
  "parseInt10 str =
     (let s = dropWhile isWhiteSpace str;
          s' = (if take 1 s = ''-'' \<or> take 1 s = ''+'' then drop 1 s else s);
          z = takeWhile isDecDigit s'
      in if z = [] then None
         else Some ((if take 1 s = ''-'' then - 1 else 1) * digitsValue 10 z))"

definition parseIntStrict :: "string \<Rightarrow> string \<Rightarrow> error + int" where
  "parseIntStrict s name =
     (case parseInt10 (trim s) of None \<Rightarrow> Inl (InvalidInt name) | Some n \<Rightarrow> Inr n)"

definition matchesHex :: "string \<Rightarrow> bool" where
  \<comment> \<open>\<^verbatim>\<open>/^[0-9a-f]+$/i\<close>\<close>
  "matchesHex t = (t \<noteq> [] \<and> list_all isHexDigit t)"

definition has0xPrefix :: "string \<Rightarrow> bool" where
  \<comment> \<open>\<^verbatim>\<open>/^0x/i\<close>\<close>
  "has0xPrefix t = (take 2 t = ''0x'' \<or> take 2 t = ''0X'')"

definition matches0xHex :: "string \<Rightarrow> bool" where
  \<comment> \<open>\<^verbatim>\<open>/^0x[0-9a-f]+$/i\<close>\<close>
  "matches0xHex t = (has0xPrefix t \<and> matchesHex (drop 2 t))"

definition matchesDec :: "string \<Rightarrow> bool" where
  \<comment> \<open>\<^verbatim>\<open>/^[0-9]+$/\<close>\<close>
  "matchesDec t = (t \<noteq> [] \<and> list_all isDecDigit t)"

definition parseNumToBigInt :: "string \<Rightarrow> string \<Rightarrow> error + int" where
  "parseNumToBigInt s name =
     (let t = trim s in
      if t = [] then Inl (MissingNum name)
      else if (matches0xHex t \<or> matchesHex t) \<and> (has0xPrefix t \<or> list_ex isHexLetter t)
        then parseHexToBigInt t
      else if \<not> matchesDec t then Inl (InvalidNum name s)
      else Inr (digitsValue 10 t))"

definition parseOptionalNumToBigInt :: "string \<Rightarrow> error + int option" where
  "parseOptionalNumToBigInt s =
     (let t = trim s in
      if t = [] then Inr None
      else (case parseNumToBigInt t ''number'' of Inl e \<Rightarrow> Inl e | Inr n \<Rightarrow> Inr (Some n)))"

fun splitOn :: "'a \<Rightarrow> 'a list \<Rightarrow> 'a list list" where
  \<comment> \<open>\<^verbatim>\<open>split\<close> at a one-character separator; the empty string gives one empty piece\<close>
  "splitOn sep [] = [[]]"
| "splitOn sep (c # cs) =
     (if c = sep then [] # splitOn sep cs
      else (case splitOn sep cs of [] \<Rightarrow> [[c]] | l # ls \<Rightarrow> (c # l) # ls))"

definition dropCR :: "string \<Rightarrow> string" where
  "dropCR p = (case rev p of [] \<Rightarrow> [] | c # r \<Rightarrow> if c = CHR 0x0D then rev r else p)"

definition splitLines :: "string \<Rightarrow> string list" where
  \<comment> \<open>\<^verbatim>\<open>split(/\r?\n/)\<close>: cut at every line feed, and a carriage return just before the
      line feed belongs to the separator\<close>
  "splitLines text =
     (case rev (splitOn (CHR 0x0A) text) of
        [] \<Rightarrow> []
      | l # front \<Rightarrow> map dropCR (rev front) @ [l])"

definition addrLines :: "string \<Rightarrow> string list" where
  \<comment> \<open>\<^verbatim>\<open>.split(/\r?\n/).map(l => l.trim()).filter(l => l.length > 0)\<close>\<close>
  "addrLines text = filter (\<lambda>l. l \<noteq> []) (map trim (splitLines text))"

fun parseAll :: "string list \<Rightarrow> error + int list" where
  \<comment> \<open>\<^verbatim>\<open>lines.map(parseHexToBigInt)\<close>: the first throw ends the map\<close>
  "parseAll [] = Inr []"
| "parseAll (l # ls) =
     (case parseHexToBigInt l of
        Inl e \<Rightarrow> Inl e
      | Inr a \<Rightarrow> (case parseAll ls of Inl e \<Rightarrow> Inl e | Inr as \<Rightarrow> Inr (a # as)))"

definition parseAddresses :: "string \<Rightarrow> error + int list" where
  "parseAddresses text = parseAll (addrLines text)"

section \<open>Lines, sets and the LRU victim\<close>

text \<open>
  A cache line is \<^verbatim>\<open>{valid, tag, lastUsed}\<close>; a TLB line has the fields \<^verbatim>\<open>ppn\<close> and
  \<^verbatim>\<open>flags\<close> as well. \<^verbatim>\<open>pickVictimLRU\<close> is defined twice in the sources, once per module,
  with the same text; it reads only \<^verbatim>\<open>valid\<close> and \<^verbatim>\<open>lastUsed\<close>, so one definition over
  the extensible record embeds both.
\<close>

record line =
  valid :: bool
  tag :: int
  lastUsed :: int

record tlbLine = line +
  ppn :: int
  flags :: string

fun findIndex :: "('a \<Rightarrow> bool) \<Rightarrow> 'a list \<Rightarrow> nat option" where
  \<comment> \<open>\<^verbatim>\<open>Array.prototype.findIndex\<close>, \<open>None\<close> for \<open>-1\<close>\<close>
  "findIndex P [] = None"
| "findIndex P (x # xs) = (if P x then Some 0 else map_option Suc (findIndex P xs))"

function lruScan :: "'a line_scheme list \<Rightarrow> nat \<Rightarrow> nat \<Rightarrow> nat" where
  \<comment> \<open>\<^verbatim>\<open>for (let i = 1; i < lines.length; i++) if (lines[i].lastUsed < lines[best].lastUsed) best = i;\<close>\<close>
  "lruScan ls best i =
     (if i < length ls
      then lruScan ls (if lastUsed (ls ! i) < lastUsed (ls ! best) then i else best) (Suc i)
      else best)"
  by pat_completeness auto
termination
  by (relation "measure (\<lambda>(ls, best, i). length ls - i)") auto

declare lruScan.simps [simp del]

definition pickVictimLRU :: "'a line_scheme list \<Rightarrow> nat" where
  "pickVictimLRU ls =
     (case findIndex (\<lambda>x. \<not> valid x) ls of
        Some invalidIdx \<Rightarrow> invalidIdx
      | None \<Rightarrow> lruScan ls 0 1)"

definition hitWay :: "'a line_scheme list \<Rightarrow> int \<Rightarrow> nat option" where
  \<comment> \<open>the lookup loop of both simulators: the first way that is valid and holds the tag\<close>
  "hitWay setLines t = findIndex (\<lambda>ln. valid ln \<and> tag ln = t) setLines"

section \<open>modules/cache.js\<close>

record cacheInput =
  \<comment> \<open>the fields of \<^verbatim>\<open>ctx.state\<close> that \<^verbatim>\<open>compute\<close> reads, after the \<^verbatim>\<open>??\<close> defaults\<close>
  ci_addrBits :: string
  ci_cacheSize :: string
  ci_blockSize :: string
  ci_assoc :: string
  ci_addresses :: string

record cacheSplit =
  cs_addrBits :: int
  cs_cacheSize :: int
  cs_blockSize :: int
  cs_assoc :: int
  cs_numBlocks :: int
  cs_numSets :: int
  cs_offsetBits :: int
  cs_indexBits :: int
  cs_tagBits :: int

definition cacheSplitOf :: "int \<Rightarrow> int \<Rightarrow> int \<Rightarrow> int \<Rightarrow> error + cacheSplit" where
  \<comment> \<open>the validation and the derivation of \<^verbatim>\<open>compute\<close>, from the four parsed integers\<close>
  "cacheSplitOf addrBits cacheSize blockSize assoc =
     (if addrBits \<le> 0 \<or> addrBits > 64 then Inl (ConfigError ''addrBits must be between 1 and 64.'')
      else if cacheSize \<le> 0 then Inl (ConfigError ''cacheSize must be > 0'')
      else if blockSize \<le> 0 then Inl (ConfigError ''blockSize must be > 0'')
      else if assoc \<le> 0 then Inl (ConfigError ''associativity must be > 0'')
      else if \<not> isPowerOfTwo blockSize then Inl (ConfigError ''blockSize must be a power of two'')
      else if cacheSize mod blockSize \<noteq> 0
        then Inl (ConfigError ''cacheSize must be divisible by blockSize'')
      else
        let numBlocks = cacheSize div blockSize in
        if numBlocks mod assoc \<noteq> 0 then Inl (ConfigError ''blocks must be divisible by associativity'')
        else
          let numSets = numBlocks div assoc in
          if \<not> isPowerOfTwo numSets then Inl (NumSetsNotPowerOfTwo numSets)
          else
            (case log2IntPow2 blockSize of
               Inl e \<Rightarrow> Inl e
             | Inr offsetBits \<Rightarrow>
                 (case (if numSets = 1 then Inr 0 else log2IntPow2 numSets) of
                    Inl e \<Rightarrow> Inl e
                  | Inr indexBits \<Rightarrow>
                      let tagBits = addrBits - offsetBits - indexBits in
                      if tagBits < 0 then Inl (ConfigError ''Invalid bit split: tagBits became negative.'')
                      else Inr \<lparr> cs_addrBits = addrBits, cs_cacheSize = cacheSize,
                                 cs_blockSize = blockSize, cs_assoc = assoc,
                                 cs_numBlocks = numBlocks, cs_numSets = numSets,
                                 cs_offsetBits = offsetBits, cs_indexBits = indexBits,
                                 cs_tagBits = tagBits \<rparr>)))"

definition cacheConfig :: "cacheInput \<Rightarrow> error + cacheSplit" where
  "cacheConfig s =
     (case parseIntStrict (ci_addrBits s) ''addrBits'' of Inl e \<Rightarrow> Inl e | Inr addrBits \<Rightarrow>
      case parseIntStrict (ci_cacheSize s) ''cacheSize'' of Inl e \<Rightarrow> Inl e | Inr cacheSize \<Rightarrow>
      case parseIntStrict (ci_blockSize s) ''blockSize'' of Inl e \<Rightarrow> Inl e | Inr blockSize \<Rightarrow>
      case parseIntStrict (ci_assoc s) ''associativity'' of Inl e \<Rightarrow> Inl e | Inr assoc \<Rightarrow>
      cacheSplitOf addrBits cacheSize blockSize assoc)"

definition initCache :: "int \<Rightarrow> int \<Rightarrow> line list list" where
  "initCache numSets assoc =
     replicate (nat numSets) (replicate (nat assoc) \<lparr> valid = False, tag = 0, lastUsed = 0 \<rparr>)"

definition fieldOffset :: "int \<Rightarrow> int \<Rightarrow> int" where
  \<comment> \<open>\<^verbatim>\<open>a & maskBits(offsetBits)\<close>\<close>
  "fieldOffset offsetBits a = a AND maskBits offsetBits"

definition fieldIndex :: "int \<Rightarrow> int \<Rightarrow> int \<Rightarrow> int" where
  \<comment> \<open>\<^verbatim>\<open>indexBits === 0 ? 0n : (a >> BigInt(offsetBits)) & maskBits(indexBits)\<close>\<close>
  "fieldIndex offsetBits indexBits a =
     (if indexBits = 0 then 0 else drop_bit (nat offsetBits) a AND maskBits indexBits)"

definition fieldTag :: "int \<Rightarrow> int \<Rightarrow> int \<Rightarrow> int" where
  \<comment> \<open>\<^verbatim>\<open>a >> BigInt(offsetBits + indexBits)\<close>\<close>
  "fieldTag offsetBits indexBits a = drop_bit (nat (offsetBits + indexBits)) a"

datatype outcome = HIT | MISS

record cacheAccess =
  \<comment> \<open>the values interpolated into the line printed for one access\<close>
  ca_addr :: int
  ca_tag :: int
  ca_index :: int
  ca_offset :: int
  ca_result :: outcome
  ca_set :: nat
  ca_way :: nat
  ca_evicted :: "int option"  \<comment> \<open>the tag of the valid line that was overwritten, if any\<close>

record cacheSim =
  sets :: "line list list"
  time :: int
  hits :: int
  misses :: int
  trace :: "cacheAccess list"

definition cacheStep :: "int \<Rightarrow> int \<Rightarrow> cacheSim \<Rightarrow> int \<Rightarrow> error + cacheSim" where
  \<comment> \<open>one round of the loop of \<^verbatim>\<open>compute\<close>. Reading a set or a line that does not exist gives
      \<^verbatim>\<open>undefined\<close>, and the property access on it throws.\<close>
  "cacheStep offsetBits indexBits st a =
     (let now = time st + 1;
          off = fieldOffset offsetBits a;
          idx = fieldIndex offsetBits indexBits a;
          tg = fieldTag offsetBits indexBits a;
          setIdx = nat idx
      in
      if idx < 0 \<or> setIdx \<ge> length (sets st) then Inl TypeError
      else
        let setLines = sets st ! setIdx in
        (case hitWay setLines tg of
           Some w \<Rightarrow>
             Inr (st \<lparr> sets := (sets st)[setIdx := setLines[w := (setLines ! w)\<lparr> lastUsed := now \<rparr>]],
                       time := now,
                       hits := hits st + 1,
                       trace := trace st @
                         [\<lparr> ca_addr = a, ca_tag = tg, ca_index = idx, ca_offset = off,
                            ca_result = HIT, ca_set = setIdx, ca_way = w, ca_evicted = None \<rparr>] \<rparr>)
         | None \<Rightarrow>
             let victim = pickVictimLRU setLines in
             if victim \<ge> length setLines then Inl TypeError
             else
               let old = setLines ! victim;
                   evicted = (if valid old then Some (tag old) else None)
               in Inr (st \<lparr> sets := (sets st)[setIdx := setLines[victim :=
                                       old \<lparr> valid := True, tag := tg, lastUsed := now \<rparr>]],
                            time := now,
                            misses := misses st + 1,
                            trace := trace st @
                              [\<lparr> ca_addr = a, ca_tag = tg, ca_index = idx, ca_offset = off,
                                 ca_result = MISS, ca_set = setIdx, ca_way = victim,
                                 ca_evicted = evicted \<rparr>] \<rparr>)))"

fun cacheLoop :: "int \<Rightarrow> int \<Rightarrow> cacheSim \<Rightarrow> int list \<Rightarrow> error + cacheSim" where
  "cacheLoop offsetBits indexBits st [] = Inr st"
| "cacheLoop offsetBits indexBits st (a # as) =
     (case cacheStep offsetBits indexBits st a of
        Inl e \<Rightarrow> Inl e
      | Inr st' \<Rightarrow> cacheLoop offsetBits indexBits st' as)"

record cacheOutput =
  co_split :: cacheSplit
  co_accesses :: "cacheAccess list"
  co_hits :: int
  co_misses :: int
  co_hitRate :: rat       \<comment> \<open>the double held in \<^verbatim>\<open>hitRate\<close>, as the rational number it is\<close>
  co_hitRateText :: string  \<comment> \<open>\<^verbatim>\<open>hitRate.toFixed(2)\<close>, which is printed with a percent sign after it\<close>

text \<open>
  \<^verbatim>\<open>hits / total\<close> and the product with 100 are operations on doubles: each returns the
  double nearest to the exact result, ties going to the even significand. A double is
  modelled as the rational number it is, and the rounding is written out for the normal
  range (the values here lie between \<open>2^-53\<close> and 100, or are 0).
\<close>

definition binExp :: "rat \<Rightarrow> int" where
  \<comment> \<open>for \<open>x > 0\<close>, the exponent \<open>e\<close> with \<open>2^e \<le> x < 2^(e+1)\<close>\<close>
  "binExp x =
     (let (p, q) = quotient_of x;
          d = floorLog2 p - floorLog2 q
      in if power_int 2 d \<le> x then d else d - 1)"

definition roundHalfEven :: "rat \<Rightarrow> int" where
  \<comment> \<open>the nearest integer, the even one of two\<close>
  "roundHalfEven q =
     (let m = \<lfloor>q\<rfloor>; f = q - of_int m
      in if f < 1 / 2 then m else if 1 / 2 < f then m + 1 else if even m then m else m + 1)"

definition toDouble :: "rat \<Rightarrow> rat" where
  \<comment> \<open>the double nearest to \<open>x\<close>: a significand of 53 bits, rounded to nearest, ties to even\<close>
  "toDouble x =
     (if x = 0 then 0
      else
        let a = \<bar>x\<bar>;
            u = power_int 2 (binExp a - 52)
        in (if x < 0 then - 1 else 1) * of_int (roundHalfEven (a / u)) * u)"

definition hitRateOf :: "int \<Rightarrow> int \<Rightarrow> rat" where
  \<comment> \<open>\<^verbatim>\<open>total === 0 ? 0 : (hits / total) * 100\<close>; the counters are integers below \<open>2^53\<close>, which
      are doubles as they stand\<close>
  "hitRateOf h m =
     (let total = h + m
      in if total = 0 then 0 else toDouble (toDouble (of_int h / of_int total) * 100))"

function decDigits :: "int \<Rightarrow> string" where
  \<comment> \<open>the decimal digits of \<open>n \<ge> 0\<close>, \<^verbatim>\<open>0\<close> for 0\<close>
  "decDigits n =
     (if n < 10 then [''0123456789'' ! nat n]
      else decDigits (n div 10) @ [''0123456789'' ! nat (n mod 10)])"
  by pat_completeness auto
termination
  by (relation "measure nat") auto

declare decDigits.simps [simp del]

definition fixedHundredths :: "rat \<Rightarrow> int" where
  \<comment> \<open>the integer \<open>n\<close> of \<^verbatim>\<open>toFixed(2)\<close>, for \<open>x \<ge> 0\<close>: \<open>n / 100\<close> is as close to \<open>x\<close> as possible,
      and of two such integers the larger is taken\<close>
  "fixedHundredths x = \<lfloor>x * 100 + 1 / 2\<rfloor>"

definition toFixed2 :: "rat \<Rightarrow> string" where
  \<comment> \<open>\<^verbatim>\<open>x.toFixed(2)\<close> for \<open>\<bar>x\<bar> < 10^21\<close>: the digits of \<open>n\<close>, at least three of them, with
      the point before the last two\<close>
  "toFixed2 x =
     (let m = decDigits (fixedHundredths \<bar>x\<bar>);
          m' = padStart m 3 (CHR ''0'');
          k = length m'
      in (if x < 0 then ''-'' else []) @ take (k - 2) m' @ ''.'' @ drop (k - 2) m')"

definition cacheInitial :: "cacheSplit \<Rightarrow> cacheSim" where
  "cacheInitial sp =
     \<lparr> sets = initCache (cs_numSets sp) (cs_assoc sp), time = 0, hits = 0, misses = 0, trace = [] \<rparr>"

definition cacheCompute :: "cacheInput \<Rightarrow> error + cacheOutput" where
  "cacheCompute s =
     (case cacheConfig s of Inl e \<Rightarrow> Inl e | Inr sp \<Rightarrow>
      case parseAddresses (ci_addresses s) of Inl e \<Rightarrow> Inl e | Inr addrs \<Rightarrow>
      if addrs = [] then Inl (ConfigError ''Provide at least one address.'')
      else
        let clampedAddrs = map (\<lambda>a. clampBigIntToBits a (cs_addrBits sp)) addrs in
        (case cacheLoop (cs_offsetBits sp) (cs_indexBits sp) (cacheInitial sp) clampedAddrs of
           Inl e \<Rightarrow> Inl e
         | Inr st \<Rightarrow>
             Inr \<lparr> co_split = sp, co_accesses = trace st, co_hits = hits st,
                   co_misses = misses st, co_hitRate = hitRateOf (hits st) (misses st),
                   co_hitRateText = toFixed2 (hitRateOf (hits st) (misses st)) \<rparr>))"

section \<open>modules/vm.js\<close>

record pte =
  \<comment> \<open>a page-table entry \<^verbatim>\<open>{ ppn, flags }\<close>\<close>
  pte_ppn :: int
  pte_flags :: string

type_synonym pageTable = "int \<rightharpoonup> pte"

record ptRow =
  \<comment> \<open>a row of the initial page table, as typed\<close>
  pr_vpn :: string
  pr_ppn :: string
  pr_flags :: string

record tlbRow =
  \<comment> \<open>a row of the initial TLB, as typed\<close>
  tr_set :: string
  tr_way :: string
  tr_tag :: string
  tr_ppn :: string
  tr_flags :: string
  tr_lastUsed :: string

fun replaceArrows :: "string \<Rightarrow> string" where
  \<comment> \<open>\<^verbatim>\<open>replace(/->/g, " ")\<close>\<close>
  "replaceArrows (c # d # cs) =
     (if c = CHR ''-'' \<and> d = CHR ''>'' then CHR '' '' # replaceArrows cs
      else c # replaceArrows (d # cs))"
| "replaceArrows cs = cs"

function collapseWs :: "string \<Rightarrow> string" where
  \<comment> \<open>\<^verbatim>\<open>replace(/\s+/g, " ")\<close>\<close>
  "collapseWs [] = []"
| "collapseWs (c # cs) =
     (if isWhiteSpace c then CHR '' '' # collapseWs (dropWhile isWhiteSpace cs)
      else c # collapseWs cs)"
  by pat_completeness auto
termination
  by (relation "measure length") (auto simp: length_dropWhile_le less_Suc_eq_le)

definition mappingParts :: "string \<Rightarrow> string list" where
  \<comment> \<open>\<^verbatim>\<open>line.replace(/,/g, " ").replace(/->/g, " ").replace(/\s+/g, " ").split(" ").filter(Boolean)\<close>\<close>
  "mappingParts l =
     filter (\<lambda>p. p \<noteq> [])
       (splitOn (CHR '' '')
          (collapseWs (replaceArrows (map (\<lambda>c. if c = CHR '','' then CHR '' '' else c) l))))"

definition mappingLines :: "string \<Rightarrow> string list" where
  \<comment> \<open>\<^verbatim>\<open>.split(/\r?\n/).map(l => l.trim()).filter(l => l && !l.startsWith("#"))\<close>\<close>
  "mappingLines text =
     filter (\<lambda>l. l \<noteq> [] \<and> take 1 l \<noteq> ''#'') (map trim (splitLines text))"

fun parseMappingsLoop :: "pageTable \<Rightarrow> string list \<Rightarrow> error + pageTable" where
  "parseMappingsLoop m [] = Inr m"
| "parseMappingsLoop m (l # ls) =
     (let parts = mappingParts l in
      if length parts < 2 then parseMappingsLoop m ls
      else
        (case parseNumToBigInt (parts ! 0) ''VPN'' of Inl e \<Rightarrow> Inl e | Inr vpn \<Rightarrow>
        (case parseNumToBigInt (parts ! 1) ''PPN'' of Inl e \<Rightarrow> Inl e | Inr pp \<Rightarrow>
           parseMappingsLoop
             (m(vpn \<mapsto> \<lparr> pte_ppn = pp, pte_flags = map toUpperChar (concat (drop 2 parts)) \<rparr>)) ls)))"

definition parseMappings :: "string \<Rightarrow> error + pageTable" where
  "parseMappings text = parseMappingsLoop Map.empty (mappingLines text)"

fun applyPtInitRows :: "pageTable \<Rightarrow> ptRow list \<Rightarrow> error + pageTable" where
  "applyPtInitRows m [] = Inr m"
| "applyPtInitRows m (r # rs) =
     (case parseOptionalNumToBigInt (pr_vpn r) of Inl e \<Rightarrow> Inl e | Inr vpnO \<Rightarrow>
     (case parseOptionalNumToBigInt (pr_ppn r) of Inl e \<Rightarrow> Inl e | Inr ppnO \<Rightarrow>
     (case (vpnO, ppnO) of
        (Some vpn, Some pp) \<Rightarrow>
          applyPtInitRows
            (m(vpn \<mapsto> \<lparr> pte_ppn = pp, pte_flags = map toUpperChar (trim (pr_flags r)) \<rparr>)) rs
      | _ \<Rightarrow> applyPtInitRows m rs)))"

definition initTLB :: "int \<Rightarrow> int \<Rightarrow> tlbLine list list" where
  "initTLB numSets assoc =
     replicate (nat numSets)
       (replicate (nat assoc) \<lparr> valid = False, tag = 0, lastUsed = 0, ppn = 0, flags = [] \<rparr>)"

fun applyTlbInitRows :: "tlbLine list list \<Rightarrow> tlbRow list \<Rightarrow> int \<Rightarrow> error + tlbLine list list" where
  \<comment> \<open>the third argument is the running value of \<^verbatim>\<open>t\<close>, which starts at \<^verbatim>\<open>timeBase\<close>\<close>
  "applyTlbInitRows tlbSets [] t = Inr tlbSets"
| "applyTlbInitRows tlbSets (r # rs) t =
     (let setStr = trim (tr_set r); wayStr = trim (tr_way r) in
      case parseOptionalNumToBigInt (tr_tag r) of Inl e \<Rightarrow> Inl e | Inr tagO \<Rightarrow>
     (case parseOptionalNumToBigInt (tr_ppn r) of Inl e \<Rightarrow> Inl e | Inr ppnO \<Rightarrow>
     (case (tagO, ppnO) of
        (Some tg, Some pp) \<Rightarrow>
          if setStr = [] \<or> wayStr = [] then applyTlbInitRows tlbSets rs t
          else
            (case (parseInt10 setStr, parseInt10 wayStr) of
               (Some setIdx, Some wayIdx) \<Rightarrow>
                 if setIdx < 0 \<or> setIdx \<ge> int (length tlbSets) then applyTlbInitRows tlbSets rs t
                 else if wayIdx < 0 \<or> wayIdx \<ge> int (length (tlbSets ! nat setIdx))
                   then applyTlbInitRows tlbSets rs t
                 else
                   let fl = map toUpperChar (trim (tr_flags r));
                       parsed = parseInt10 (trim (tr_lastUsed r));
                       t' = (case parsed of None \<Rightarrow> t + 1 | Some n \<Rightarrow> t);
                       lu = (case parsed of None \<Rightarrow> t + 1 | Some n \<Rightarrow> n);
                       setLines = tlbSets ! nat setIdx;
                       ln = (setLines ! nat wayIdx)
                              \<lparr> valid := True, tag := tg, lastUsed := lu, ppn := pp, flags := fl \<rparr>
                   in applyTlbInitRows
                        (tlbSets[nat setIdx := setLines[nat wayIdx := ln]]) rs t'
             | _ \<Rightarrow> applyTlbInitRows tlbSets rs t)
      | _ \<Rightarrow> applyTlbInitRows tlbSets rs t)))"

record vmInput =
  \<comment> \<open>the fields of \<^verbatim>\<open>ctx.state\<close> that \<^verbatim>\<open>compute\<close> reads, after the \<^verbatim>\<open>??\<close> defaults\<close>
  vi_vaBits :: string
  vi_paBits :: string
  vi_pageSize :: string
  vi_addresses :: string
  vi_mappings :: string
  vi_ptInitRows :: "ptRow list"
  vi_enableTLB :: bool
  vi_tlbEntries :: string
  vi_tlbAssoc :: string
  vi_tlbInitRows :: "tlbRow list"

record vmSplit =
  vs_vaBits :: int
  vs_paBits :: int
  vs_pageSize :: int
  vs_offsetBits :: int
  vs_vpnBits :: int

definition vmSplitOf :: "int \<Rightarrow> int \<Rightarrow> int \<Rightarrow> error + vmSplit" where
  \<comment> \<open>the validation and the derivation at the head of \<^verbatim>\<open>compute\<close>, from the parsed integers\<close>
  "vmSplitOf vaBits paBits pageSize =
     (if vaBits \<le> 0 \<or> vaBits > 64 then Inl (ConfigError ''vaBits must be between 1 and 64.'')
      else if paBits \<le> 0 \<or> paBits > 64 then Inl (ConfigError ''paBits must be between 1 and 64.'')
      else if \<not> isPowerOfTwo pageSize then Inl (ConfigError ''pageSize must be a power of two.'')
      else
        (case log2IntPow2 pageSize of
           Inl e \<Rightarrow> Inl e
         | Inr offsetBits \<Rightarrow>
             let vpnBits = vaBits - offsetBits in
             if vpnBits \<le> 0
             then Inl (ConfigError ''Invalid split: vpnBits <= 0 (pageSize too large for VA).'')
             else Inr \<lparr> vs_vaBits = vaBits, vs_paBits = paBits, vs_pageSize = pageSize,
                        vs_offsetBits = offsetBits, vs_vpnBits = vpnBits \<rparr>))"

definition vmConfig :: "vmInput \<Rightarrow> error + vmSplit" where
  "vmConfig s =
     (case parseIntStrict (vi_vaBits s) ''vaBits'' of Inl e \<Rightarrow> Inl e | Inr vaBits \<Rightarrow>
      case parseIntStrict (vi_paBits s) ''paBits'' of Inl e \<Rightarrow> Inl e | Inr paBits \<Rightarrow>
      case parseIntStrict (vi_pageSize s) ''pageSize'' of Inl e \<Rightarrow> Inl e | Inr pageSize \<Rightarrow>
      vmSplitOf vaBits paBits pageSize)"

record tlbParams =
  tp_entries :: int
  tp_assoc :: int
  tp_numSets :: int
  tp_indexBits :: int
  tp_tagBits :: int

definition tlbConfig :: "vmInput \<Rightarrow> int \<Rightarrow> error + tlbParams" where
  \<comment> \<open>the block under \<^verbatim>\<open>if (enableTLB)\<close> up to the bit split; the second argument is \<^verbatim>\<open>vpnBits\<close>\<close>
  "tlbConfig s vpnBits =
     (case parseIntStrict (vi_tlbEntries s) ''tlbEntries'' of Inl e \<Rightarrow> Inl e | Inr tlbEntries \<Rightarrow>
      case parseIntStrict (vi_tlbAssoc s) ''tlbAssoc'' of Inl e \<Rightarrow> Inl e | Inr tlbAssoc \<Rightarrow>
      if tlbEntries \<le> 0 then Inl (ConfigError ''tlbEntries must be > 0'')
      else if tlbAssoc \<le> 0 then Inl (ConfigError ''tlbAssoc must be > 0'')
      else if tlbEntries mod tlbAssoc \<noteq> 0
        then Inl (ConfigError ''TLB entries must be divisible by associativity'')
      else
        let numSets = tlbEntries div tlbAssoc in
        if \<not> isPowerOfTwo numSets then Inl (ConfigError ''TLB number of sets must be a power of two'')
        else
          (case (if numSets = 1 then Inr 0 else log2IntPow2 numSets) of
             Inl e \<Rightarrow> Inl e
           | Inr tlbIndexBits \<Rightarrow>
               let tlbTagBits = vpnBits - tlbIndexBits in
               if tlbTagBits < 0 then Inl (ConfigError ''Invalid TLB split: tlbTagBits < 0'')
               else Inr \<lparr> tp_entries = tlbEntries, tp_assoc = tlbAssoc, tp_numSets = numSets,
                          tp_indexBits = tlbIndexBits, tp_tagBits = tlbTagBits \<rparr>))"

record vmAccess =
  \<comment> \<open>the values interpolated into the line printed for one access\<close>
  va_addr :: int
  va_vpn :: int
  va_offset :: int
  va_tlb :: "outcome option"    \<comment> \<open>\<open>None\<close> when the TLB is disabled\<close>
  va_tlbIdx :: nat
  va_tlbTag :: int
  va_ppn :: "int option"        \<comment> \<open>\<open>None\<close> for \<^verbatim>\<open>null\<close>\<close>
  va_flags :: string
  va_pa :: "int option"         \<comment> \<open>\<^verbatim>\<open>paClamped\<close>; \<open>None\<close> when the text is that of a page fault\<close>
  va_paStr :: "string option"   \<comment> \<open>\<^verbatim>\<open>toHex(paClamped, paNibbles)\<close>\<close>

record vmSim =
  tlbSets :: "tlbLine list list"   \<comment> \<open>\<open>[]\<close> stands for \<^verbatim>\<open>null\<close> when the TLB is disabled\<close>
  pageTable :: pageTable
  vtime :: int
  tlbHits :: int
  tlbMisses :: int
  ptHits :: int
  ptMisses :: int
  vtrace :: "vmAccess list"

record vmParams =
  vp_offsetBits :: int
  vp_paBits :: int
  vp_enableTLB :: bool
  vp_tlbIndexBits :: int

definition physAddr :: "vmParams \<Rightarrow> int \<Rightarrow> int \<Rightarrow> int" where
  \<comment> \<open>\<^verbatim>\<open>clampBigIntToBits((ppn << BigInt(offsetBits)) | offset, paBits)\<close>\<close>
  "physAddr p pp off =
     clampBigIntToBits (push_bit (nat (vp_offsetBits p)) pp OR off) (vp_paBits p)"

definition paNibbles :: "int \<Rightarrow> int" where
  \<comment> \<open>\<^verbatim>\<open>Math.ceil(paBits / 4)\<close>\<close>
  "paNibbles paBits = (paBits + 3) div 4"

definition vmRecord ::
  "vmParams \<Rightarrow> int \<Rightarrow> int \<Rightarrow> int \<Rightarrow> outcome option \<Rightarrow> nat \<Rightarrow> int \<Rightarrow> int option \<Rightarrow> string \<Rightarrow> vmAccess" where
  \<comment> \<open>the tail of a round of the loop: the physical address, if there is a page number\<close>
  "vmRecord p a vpn off tlbRes setIdx tg ppO fl =
     \<lparr> va_addr = a, va_vpn = vpn, va_offset = off, va_tlb = tlbRes, va_tlbIdx = setIdx,
        va_tlbTag = tg, va_ppn = ppO, va_flags = fl,
        va_pa = map_option (\<lambda>pp. physAddr p pp off) ppO,
        va_paStr = map_option (\<lambda>pp. toHex (physAddr p pp off) (paNibbles (vp_paBits p))) ppO \<rparr>"

definition vmOffset :: "vmParams \<Rightarrow> int \<Rightarrow> int" where
  \<comment> \<open>\<^verbatim>\<open>va & maskBits(offsetBits)\<close>\<close>
  "vmOffset p a = a AND maskBits (vp_offsetBits p)"

definition vmVpn :: "vmParams \<Rightarrow> int \<Rightarrow> int" where
  \<comment> \<open>\<^verbatim>\<open>va >> BigInt(offsetBits)\<close>\<close>
  "vmVpn p a = drop_bit (nat (vp_offsetBits p)) a"

definition tlbIndex :: "vmParams \<Rightarrow> int \<Rightarrow> int" where
  \<comment> \<open>\<^verbatim>\<open>tlbIndexBits === 0 ? 0n : vpn & maskBits(tlbIndexBits)\<close>\<close>
  "tlbIndex p vpn = (if vp_tlbIndexBits p = 0 then 0 else vpn AND maskBits (vp_tlbIndexBits p))"

definition tlbTagOf :: "vmParams \<Rightarrow> int \<Rightarrow> int" where
  \<comment> \<open>\<^verbatim>\<open>vpn >> BigInt(tlbIndexBits)\<close>\<close>
  "tlbTagOf p vpn = drop_bit (nat (vp_tlbIndexBits p)) vpn"

definition vmStep :: "vmParams \<Rightarrow> vmSim \<Rightarrow> int \<Rightarrow> error + vmSim" where
  \<comment> \<open>one round of the loop of \<^verbatim>\<open>compute\<close>\<close>
  "vmStep p st a =
     (let now = vtime st + 1;
          off = vmOffset p a;
          vpn = vmVpn p a
      in
      if \<not> vp_enableTLB p then
        \<comment> \<open>TLB disabled: the page table alone\<close>
        (case pageTable st vpn of
           None \<Rightarrow>
             Inr (st \<lparr> vtime := now, ptMisses := ptMisses st + 1,
                       vtrace := vtrace st @ [vmRecord p a vpn off None 0 0 None []] \<rparr>)
         | Some entry \<Rightarrow>
             Inr (st \<lparr> vtime := now, ptHits := ptHits st + 1,
                       vtrace := vtrace st @
                         [vmRecord p a vpn off None 0 0 (Some (pte_ppn entry)) (pte_flags entry)] \<rparr>))
      else
        let idx = tlbIndex p vpn;
            setIdx = nat idx;
            tg = tlbTagOf p vpn
        in
        if idx < 0 \<or> setIdx \<ge> length (tlbSets st) then Inl TypeError
        else
          let setLines = tlbSets st ! setIdx in
          (case hitWay setLines tg of
             Some w \<Rightarrow>
               let ln = setLines ! w in
               Inr (st \<lparr> tlbSets := (tlbSets st)[setIdx := setLines[w := ln \<lparr> lastUsed := now \<rparr>]],
                         vtime := now, tlbHits := tlbHits st + 1,
                         vtrace := vtrace st @
                           [vmRecord p a vpn off (Some HIT) setIdx tg (Some (ppn ln)) (flags ln)] \<rparr>)
           | None \<Rightarrow>
               (case pageTable st vpn of
                  None \<Rightarrow>
                    Inr (st \<lparr> vtime := now, tlbMisses := tlbMisses st + 1,
                              ptMisses := ptMisses st + 1,
                              vtrace := vtrace st @
                                [vmRecord p a vpn off (Some MISS) setIdx tg None []] \<rparr>)
                | Some entry \<Rightarrow>
                    let victim = pickVictimLRU setLines in
                    if victim \<ge> length setLines then Inl TypeError
                    else
                      let ln = (setLines ! victim)
                                 \<lparr> valid := True, tag := tg, lastUsed := now,
                                    ppn := pte_ppn entry, flags := pte_flags entry \<rparr>
                      in Inr (st \<lparr> tlbSets := (tlbSets st)[setIdx := setLines[victim := ln]],
                                   vtime := now, tlbMisses := tlbMisses st + 1,
                                   ptHits := ptHits st + 1,
                                   vtrace := vtrace st @
                                     [vmRecord p a vpn off (Some MISS) setIdx tg
                                        (Some (pte_ppn entry)) (pte_flags entry)] \<rparr>))))"

fun vmLoop :: "vmParams \<Rightarrow> vmSim \<Rightarrow> int list \<Rightarrow> error + vmSim" where
  "vmLoop p st [] = Inr st"
| "vmLoop p st (a # as) =
     (case vmStep p st a of Inl e \<Rightarrow> Inl e | Inr st' \<Rightarrow> vmLoop p st' as)"

record vmOutput =
  vo_split :: vmSplit
  vo_accesses :: "vmAccess list"
  vo_tlbHits :: int
  vo_tlbMisses :: int
  vo_ptHits :: int
  vo_ptMisses :: int
  vo_tlbSets :: "tlbLine list list"   \<comment> \<open>the TLB as the loop leaves it\<close>

definition vmPageTable :: "vmInput \<Rightarrow> error + pageTable" where
  \<comment> \<open>the page table of the text area, then the rows of the table over it\<close>
  "vmPageTable s =
     (case parseMappings (vi_mappings s) of
        Inl e \<Rightarrow> Inl e
      | Inr m \<Rightarrow> applyPtInitRows m (vi_ptInitRows s))"

definition vmTlb :: "vmInput \<Rightarrow> int \<Rightarrow> error + (int \<times> tlbLine list list)" where
  \<comment> \<open>\<^verbatim>\<open>tlbIndexBits\<close> and \<^verbatim>\<open>tlbSets\<close> as the simulation starts\<close>
  "vmTlb s vpnBits =
     (if \<not> vi_enableTLB s then Inr (0, [])
      else
        (case tlbConfig s vpnBits of
           Inl e \<Rightarrow> Inl e
         | Inr tp \<Rightarrow>
             (case applyTlbInitRows (initTLB (tp_numSets tp) (tp_assoc tp)) (vi_tlbInitRows s) 0 of
                Inl e \<Rightarrow> Inl e
              | Inr ts \<Rightarrow> Inr (tp_indexBits tp, ts))))"

definition vmCompute :: "vmInput \<Rightarrow> error + vmOutput" where
  "vmCompute s =
     (case vmConfig s of Inl e \<Rightarrow> Inl e | Inr sp \<Rightarrow>
      if addrLines (vi_addresses s) = [] then Inl (ConfigError ''Provide at least one virtual address.'')
      else
      (case parseAll (addrLines (vi_addresses s)) of Inl e \<Rightarrow> Inl e | Inr parsed \<Rightarrow>
       let addrs = map (\<lambda>a. clampBigIntToBits a (vs_vaBits sp)) parsed in
      (case vmPageTable s of Inl e \<Rightarrow> Inl e | Inr pt \<Rightarrow>
      (case vmTlb s (vs_vpnBits sp) of Inl e \<Rightarrow> Inl e | Inr (tlbIndexBits, ts) \<Rightarrow>
       let p = \<lparr> vp_offsetBits = vs_offsetBits sp, vp_paBits = vs_paBits sp,
                 vp_enableTLB = vi_enableTLB s, vp_tlbIndexBits = tlbIndexBits \<rparr>;
           st0 = \<lparr> tlbSets = ts, pageTable = pt, vtime = 0, tlbHits = 0, tlbMisses = 0,
                   ptHits = 0, ptMisses = 0, vtrace = [] \<rparr>
       in (case vmLoop p st0 addrs of
             Inl e \<Rightarrow> Inl e
           | Inr st \<Rightarrow>
               Inr \<lparr> vo_split = sp, vo_accesses = vtrace st, vo_tlbHits = tlbHits st,
                     vo_tlbMisses = tlbMisses st, vo_ptHits = ptHits st,
                     vo_ptMisses = ptMisses st, vo_tlbSets = tlbSets st \<rparr>)))))"

section \<open>Predicates of the claims\<close>

definition uniqueTags :: "'a line_scheme list \<Rightarrow> bool" where
  \<comment> \<open>no two valid lines of the set hold the same tag\<close>
  "uniqueTags ls = distinct (map tag (filter valid ls))"

definition cacheUnique :: "'a line_scheme list list \<Rightarrow> bool" where
  "cacheUnique ss = list_all uniqueTags ss"

definition malformedLiteral :: "string \<Rightarrow> bool" where
  \<comment> \<open>after the stripping that \<^verbatim>\<open>parseHexToBigInt\<close> does, a character outside \<^verbatim>\<open>[0-9a-fA-F]\<close> is left\<close>
  "malformedLiteral t = list_ex (\<lambda>c. \<not> isHexDigit c) (strippedHex t)"

definition tlbVpn :: "vmParams \<Rightarrow> int \<Rightarrow> nat \<Rightarrow> int" where
  \<comment> \<open>the page number that a tag stands for in a given set of the TLB\<close>
  "tlbVpn p tg i = push_bit (nat (vp_tlbIndexBits p)) tg OR int i"

definition tlbBacked :: "vmParams \<Rightarrow> pageTable \<Rightarrow> tlbLine list list \<Rightarrow> bool" where
  \<comment> \<open>every valid line of the TLB stands for a page number that the page table maps\<close>
  "tlbBacked p pt ss =
     list_all (\<lambda>i. list_all (\<lambda>ln. pt (tlbVpn p (tag ln) i) \<noteq> None) (filter valid (ss ! i)))
       [0..<length ss]"

section \<open>Powers of two\<close>

lemma and_pred_zero_imp_pow2:
  fixes n :: int
  shows "0 < n \<Longrightarrow> n AND (n - 1) = 0 \<Longrightarrow> \<exists>k. n = 2 ^ k"
proof (induction "nat n" arbitrary: n rule: less_induct)
  case less
  show ?case
  proof (cases "even n")
    case True
    then obtain m where m: "n = 2 * m" by (auto elim: evenE)
    with less.prems have mpos: "0 < m" by simp
    have "(2 * m - 1) div 2 = m - 1" by linarith
    then have "n AND (n - 1) = 2 * (m AND (m - 1))"
      using m by (subst and_int_rec) simp
    with less.prems have "m AND (m - 1) = 0" by simp
    moreover have "nat m < nat n" using m mpos by simp
    ultimately obtain k where "m = 2 ^ k" using less.hyps[of m] mpos by blast
    then have "n = 2 ^ Suc k" using m by simp
    then show ?thesis by blast
  next
    case False
    then obtain m where m: "n = 2 * m + 1" by (auto elim: oddE)
    have "n AND (n - 1) = 2 * m"
      using m by (subst and_int_rec) simp
    with less.prems have "m = 0" by simp
    then have "n = 2 ^ 0" using m by simp
    then show ?thesis by blast
  qed
qed

lemma pow2_and_pred_zero: "(2::int) ^ k AND (2 ^ k - 1) = 0"
proof -
  have "(2::int) ^ k AND (2 ^ k - 1) = take_bit k (2 ^ k)"
    by (simp add: take_bit_eq_mask mask_eq_exp_minus_1)
  then show ?thesis by simp
qed

lemma toInt32_and: "toInt32 a AND toInt32 b = toInt32 (a AND b)"
  unfolding toInt32_def by (rule bit_eqI) (simp add: bit_and_iff bit_signed_take_bit_iff)

lemma toInt32_eq_0_iff: "toInt32 x = 0 \<longleftrightarrow> take_bit 32 x = 0"
  using signed_take_bit_eq_iff_take_bit_eq[of 31 x 0] by (simp add: toInt32_def)

lemma isPowerOfTwo_iff_low32:
  "isPowerOfTwo n \<longleftrightarrow> 0 < n \<and> take_bit 32 (n AND (n - 1)) = 0"
  by (simp add: isPowerOfTwo_def toInt32_and toInt32_eq_0_iff)

lemma isPowerOfTwo_below:
  assumes "0 < n" "n < 2 ^ 32"
  shows "isPowerOfTwo n \<longleftrightarrow> (\<exists>k. n = 2 ^ k)"
proof -
  have nn: "0 \<le> n AND (n - 1)" using assms by simp
  have "n AND (n - 1) \<le> n" using assms by (simp add: AND_upper1)
  then have "n AND (n - 1) < 2 ^ 32" using assms by linarith
  then have "take_bit 32 (n AND (n - 1)) = n AND (n - 1)"
    using nn by (intro take_bit_int_eq_self) simp_all
  then have "isPowerOfTwo n \<longleftrightarrow> n AND (n - 1) = 0"
    using assms by (simp add: isPowerOfTwo_iff_low32)
  then show ?thesis
    using and_pred_zero_imp_pow2[OF assms(1)] pow2_and_pred_zero by metis
qed

lemma floorLog2_pow2: "floorLog2 (2 ^ k) = int k"
proof (induction k)
  case 0
  show ?case by (subst floorLog2.simps) simp
next
  case (Suc k)
  have "(1::int) \<le> 2 ^ k" by simp
  then have "(2::int) ^ Suc k \<ge> 2" by simp
  then have "\<not> (2::int) ^ Suc k < 2" by linarith
  then have "floorLog2 (2 ^ Suc k) = 1 + floorLog2 (2 ^ Suc k div 2)"
    by (subst floorLog2.simps) (simp only: if_False)
  then show ?case using Suc by simp
qed

lemma log2IntPow2_pow2:
  assumes "k < 32"
  shows "log2IntPow2 (2 ^ k) = Inr (int k)"
proof -
  have "(2::int) ^ k < 2 ^ 32" using assms by (intro power_strict_increasing) simp_all
  then have "isPowerOfTwo (2 ^ k)" using isPowerOfTwo_below[of "2 ^ k"] by auto
  moreover have "toInt32 (int k) = int k"
  proof -
    have "- (2 ^ 31) \<le> int k" "int k < 2 ^ 31" using assms by simp_all
    then show ?thesis unfolding toInt32_def by (rule signed_take_bit_int_eq_self)
  qed
  ultimately show ?thesis by (simp add: log2IntPow2_def floorLog2_pow2)
qed

lemma not_pow2_12884901888: "\<not> (\<exists>k. (12884901888::int) = 2 ^ k)"
proof
  assume "\<exists>k. (12884901888::int) = 2 ^ k"
  then obtain k where k: "(12884901888::int) = 2 ^ k" ..
  show False
  proof (cases "k \<le> 33")
    case True
    then have "(2::int) ^ k \<le> 2 ^ 33" by (intro power_increasing) simp_all
    with k show False by simp
  next
    case False
    then have "34 \<le> k" by simp
    then have "(2::int) ^ 34 \<le> 2 ^ k" by (intro power_increasing) simp_all
    with k show False by simp
  qed
qed

text \<open>
  Claim C1. Every \<^verbatim>\<open>blockSize\<close>, \<^verbatim>\<open>pageSize\<close> or derived \<^verbatim>\<open>numSets\<close> that is not a power of two
  is to be refused by the validation, \<^verbatim>\<open>isPowerOfTwo\<close> being true exactly on the powers of two,
  also above \<open>2^32\<close>. The code tests \<^verbatim>\<open>(n & (n - 1)) === 0\<close> on Numbers, and \<^verbatim>\<open>&\<close> keeps the low
  32 bits of its operands only (see \<open>isPowerOfTwo_iff_low32\<close>; below \<open>2^32\<close> the test is exact,
  \<open>isPowerOfTwo_below\<close>). So \<open>12884901888 = 3 * 2^32\<close>, which is no power of two, passes
  \<^verbatim>\<open>isPowerOfTwo\<close>, \<^verbatim>\<open>log2IntPow2\<close> returns 33 for it instead of raising, and both validations
  go on to a bit split with 33 offset bits.
\<close>

theorem isPowerOfTwo_accepts_three_times_2_32:
  "isPowerOfTwo 12884901888
   \<and> \<not> (\<exists>k. (12884901888::int) = 2 ^ k)
   \<and> log2IntPow2 12884901888 = Inr 33
   \<and> vmConfig \<lparr> vi_vaBits = ''64'', vi_paBits = ''64'', vi_pageSize = ''12884901888'',
          vi_addresses = ''0x0'', vi_mappings = [], vi_ptInitRows = [], vi_enableTLB = False,
          vi_tlbEntries = ''16'', vi_tlbAssoc = ''4'', vi_tlbInitRows = [] \<rparr>
       = Inr \<lparr> vs_vaBits = 64, vs_paBits = 64, vs_pageSize = 12884901888,
               vs_offsetBits = 33, vs_vpnBits = 31 \<rparr>
   \<and> cacheConfig \<lparr> ci_addrBits = ''64'', ci_cacheSize = ''12884901888'',
          ci_blockSize = ''12884901888'', ci_assoc = ''1'', ci_addresses = ''0x0'' \<rparr>
       = Inr \<lparr> cs_addrBits = 64, cs_cacheSize = 12884901888, cs_blockSize = 12884901888,
               cs_assoc = 1, cs_numBlocks = 1, cs_numSets = 1, cs_offsetBits = 33,
               cs_indexBits = 0, cs_tagBits = 31 \<rparr>"
proof -
  have a: "isPowerOfTwo 12884901888"
    by (simp add: isPowerOfTwo_def toInt32_def)
  have b: "log2IntPow2 12884901888 = Inr 33"
    by code_simp
  have c: "vmConfig \<lparr> vi_vaBits = ''64'', vi_paBits = ''64'', vi_pageSize = ''12884901888'',
          vi_addresses = ''0x0'', vi_mappings = [], vi_ptInitRows = [], vi_enableTLB = False,
          vi_tlbEntries = ''16'', vi_tlbAssoc = ''4'', vi_tlbInitRows = [] \<rparr>
       = Inr \<lparr> vs_vaBits = 64, vs_paBits = 64, vs_pageSize = 12884901888,
               vs_offsetBits = 33, vs_vpnBits = 31 \<rparr>"
    by code_simp
  have d: "cacheConfig \<lparr> ci_addrBits = ''64'', ci_cacheSize = ''12884901888'',
          ci_blockSize = ''12884901888'', ci_assoc = ''1'', ci_addresses = ''0x0'' \<rparr>
       = Inr \<lparr> cs_addrBits = 64, cs_cacheSize = 12884901888, cs_blockSize = 12884901888,
               cs_assoc = 1, cs_numBlocks = 1, cs_numSets = 1, cs_offsetBits = 33,
               cs_indexBits = 0, cs_tagBits = 31 \<rparr>"
    by code_simp
  from a not_pow2_12884901888 b c d show ?thesis by blast
qed

section \<open>Field extraction\<close>

lemma maskBits_mask: "maskBits b = mask (nat b)"
  by (simp add: maskBits_def mask_eq_exp_minus_1 push_bit_eq_mult)

lemma and_maskBits: "x AND maskBits b = take_bit (nat b) x"
  by (simp add: maskBits_mask take_bit_eq_mask)

text \<open>
  What \<^verbatim>\<open>clampBigIntToBits\<close> computes: the low \<open>bits\<close> bits of its argument, that is the
  argument modulo \<open>2^bits\<close>, a number from 0 up to \<open>2^bits\<close>; and a page number put in
  front of an offset of \<open>n\<close> bits is \<open>pp * 2^n + offset\<close>.
\<close>

lemma clampBigIntToBits_take_bit: "clampBigIntToBits x b = take_bit (nat b) x"
  by (simp add: clampBigIntToBits_def and_maskBits)

lemma clampBigIntToBits_mod: "clampBigIntToBits x b = x mod 2 ^ nat b"
  by (simp add: clampBigIntToBits_take_bit take_bit_eq_mod)

lemma clampBigIntToBits_range:
  "0 \<le> clampBigIntToBits x b \<and> clampBigIntToBits x b < 2 ^ nat b"
  by (simp add: clampBigIntToBits_mod)

lemma frame_or_offset:
  "push_bit n pp OR take_bit n (a :: int) = pp * 2 ^ n + a mod 2 ^ n"
proof -
  have "push_bit n pp OR take_bit n a = push_bit n pp + take_bit n a"
    by (rule disjunctive_add [symmetric]) (auto simp: bit_simps)
  then show ?thesis by (simp add: push_bit_eq_mult take_bit_eq_mod)
qed

text \<open>
  Claim C2. For a split into \<open>tagBits\<close>, \<open>indexBits\<close> and \<open>offsetBits\<close> that add up to
  \<open>addrBits\<close>, and an address already clamped to \<open>addrBits\<close>, the three fields the cache
  simulator extracts put the address together again:
  \<^verbatim>\<open>(tag << (indexBits + offsetBits)) | (index << offsetBits) | offset = a\<close>.
\<close>

theorem decomposition_roundtrip:
  assumes "0 \<le> tagBits" "0 \<le> indexBits" "0 \<le> offsetBits"
    and "tagBits + indexBits + offsetBits = addrBits"
    and "clampBigIntToBits a addrBits = a"
  shows "push_bit (nat (indexBits + offsetBits)) (fieldTag offsetBits indexBits a)
         OR push_bit (nat offsetBits) (fieldIndex offsetBits indexBits a)
         OR fieldOffset offsetBits a = a"
proof -
  have n: "nat (indexBits + offsetBits) = nat offsetBits + nat indexBits"
          "nat (offsetBits + indexBits) = nat offsetBits + nat indexBits"
    using assms by (simp_all add: nat_add_distrib)
  have idx: "fieldIndex offsetBits indexBits a = take_bit (nat indexBits) (drop_bit (nat offsetBits) a)"
    by (simp add: fieldIndex_def and_maskBits)
  show ?thesis
    unfolding idx fieldTag_def fieldOffset_def and_maskBits n
  proof (rule bit_eqI)
    fix n
    let ?ob = "nat offsetBits" and ?ib = "nat indexBits"
    let ?lhs = "push_bit (?ob + ?ib) (drop_bit (?ob + ?ib) a)
                OR push_bit ?ob (take_bit ?ib (drop_bit ?ob a)) OR take_bit ?ob a"
    consider "n < ?ob" | "?ob \<le> n" "n < ?ob + ?ib" | "?ob + ?ib \<le> n"
      by linarith
    then show "bit ?lhs n = bit a n"
    proof cases
      case 1
      then show ?thesis
        by (simp add: bit_or_iff bit_push_bit_iff bit_drop_bit_eq bit_take_bit_iff)
    next
      case 2
      then have "n - ?ob < ?ib" "\<not> n < ?ob" "\<not> ?ob + ?ib \<le> n" by linarith+
      with 2 show ?thesis
        by (simp add: bit_or_iff bit_push_bit_iff bit_drop_bit_eq bit_take_bit_iff)
    next
      case 3
      then have "?ob + ?ib + (n - (?ob + ?ib)) = n" by linarith
      with 3 show ?thesis
        by (auto simp add: bit_or_iff bit_push_bit_iff bit_drop_bit_eq bit_take_bit_iff)
    qed
  qed
qed

theorem decomposition_roundtrip_witness:
  "clampBigIntToBits 305441741 32 = 305441741
   \<and> fieldTag 4 6 305441741 = 298282
   \<and> fieldIndex 4 6 305441741 = 60
   \<and> fieldOffset 4 305441741 = 13
   \<and> push_bit (nat (6 + 4)) (fieldTag 4 6 305441741)
       OR push_bit (nat 4) (fieldIndex 4 6 305441741)
       OR fieldOffset 4 305441741 = 305441741"
proof -
  have c: "clampBigIntToBits 305441741 32 = 305441741"
    by (simp add: clampBigIntToBits_def maskBits_def)
  have f: "fieldTag 4 6 305441741 = 298282" "fieldIndex 4 6 305441741 = 60"
    "fieldOffset 4 305441741 = 13"
    by (simp_all add: fieldTag_def fieldIndex_def fieldOffset_def maskBits_def drop_bit_eq_div)
  from decomposition_roundtrip [of 22 6 4 32 305441741, OF _ _ _ _ c] c f
  show ?thesis by simp
qed

section \<open>Victim selection\<close>

lemma findIndex_Some:
  "findIndex P xs = Some i \<Longrightarrow> i < length xs \<and> P (xs ! i) \<and> (\<forall>j<i. \<not> P (xs ! j))"
proof (induction xs arbitrary: i)
  case Nil
  then show ?case by simp
next
  case (Cons x xs)
  show ?case
  proof (cases "P x")
    case True
    with Cons.prems show ?thesis by simp
  next
    case False
    with Cons.prems obtain i' where i': "findIndex P xs = Some i'" "i = Suc i'"
      by auto
    from Cons.IH[OF i'(1)] False i'(2) show ?thesis
      by (auto simp: nth_Cons split: nat.splits)
  qed
qed

lemma findIndex_None: "findIndex P xs = None \<longleftrightarrow> (\<forall>i<length xs. \<not> P (xs ! i))"
proof (induction xs)
  case Nil
  then show ?case by simp
next
  case (Cons x xs)
  show ?case
  proof (cases "P x")
    case True
    then show ?thesis by auto
  next
    case False
    then show ?thesis using Cons.IH
      by (auto simp: nth_Cons less_Suc_eq_0_disj split: nat.splits)
  qed
qed

lemma lruScan_spec:
  fixes ls :: "'a line_scheme list"
  assumes "best < i" "i \<le> length ls"
    and "\<forall>j<i. lastUsed (ls ! best) \<le> lastUsed (ls ! j)"
    and "\<forall>j<best. lastUsed (ls ! best) < lastUsed (ls ! j)"
  shows "lruScan ls best i < length ls
         \<and> (\<forall>j<length ls. lastUsed (ls ! lruScan ls best i) \<le> lastUsed (ls ! j))
         \<and> (\<forall>j<lruScan ls best i. lastUsed (ls ! lruScan ls best i) < lastUsed (ls ! j))"
  using assms
proof (induction ls best i rule: lruScan.induct)
  case (1 ls best i)
  show ?case
  proof (cases "i < length ls")
    case False
    with "1.prems" have "i = length ls" by simp
    moreover from False have "lruScan ls best i = best" by (subst lruScan.simps) simp
    ultimately show ?thesis using "1.prems" by simp
  next
    case True
    let ?b = "if lastUsed (ls ! i) < lastUsed (ls ! best) then i else best"
    have unfold: "lruScan ls best i = lruScan ls ?b (Suc i)"
      using True by (subst lruScan.simps) simp
    have p1: "?b < Suc i" using "1.prems"(1) by simp
    have p2: "Suc i \<le> length ls" using True by simp
    have p3: "\<forall>j<Suc i. lastUsed (ls ! ?b) \<le> lastUsed (ls ! j)"
    proof (intro allI impI)
      fix j assume "j < Suc i"
      then consider "j < i" | "j = i" by linarith
      then show "lastUsed (ls ! ?b) \<le> lastUsed (ls ! j)"
      proof cases
        case 1
        with "1.prems"(3) have "lastUsed (ls ! best) \<le> lastUsed (ls ! j)" by simp
        then show ?thesis by simp
      next
        case 2
        then show ?thesis by simp
      qed
    qed
    have p4: "\<forall>j< ?b. lastUsed (ls ! ?b) < lastUsed (ls ! j)"
    proof (intro allI impI)
      fix j assume j: "j < ?b"
      show "lastUsed (ls ! ?b) < lastUsed (ls ! j)"
      proof (cases "lastUsed (ls ! i) < lastUsed (ls ! best)")
        case True
        with j have "j < i" by simp
        with "1.prems"(3) have "lastUsed (ls ! best) \<le> lastUsed (ls ! j)" by simp
        with True show ?thesis by simp
      next
        case False
        with j "1.prems"(4) show ?thesis by simp
      qed
    qed
    from "1.IH"[OF True p1 p2 p3 p4] show ?thesis unfolding unfold .
  qed
qed

lemma pickVictimLRU_props:
  fixes ls :: "'a line_scheme list"
  shows "((\<exists>i<length ls. \<not> valid (ls ! i)) \<longrightarrow>
            pickVictimLRU ls < length ls \<and> \<not> valid (ls ! pickVictimLRU ls)
            \<and> (\<forall>j<pickVictimLRU ls. valid (ls ! j)))
       \<and> (ls \<noteq> [] \<and> (\<forall>i<length ls. valid (ls ! i)) \<longrightarrow>
            pickVictimLRU ls < length ls
            \<and> (\<forall>j<length ls. lastUsed (ls ! pickVictimLRU ls) \<le> lastUsed (ls ! j))
            \<and> (\<forall>j<pickVictimLRU ls. lastUsed (ls ! pickVictimLRU ls) < lastUsed (ls ! j)))"
proof (intro conjI impI)
  assume ex: "\<exists>i<length ls. \<not> valid (ls ! i)"
  then have "findIndex (\<lambda>x. \<not> valid x) ls \<noteq> None"
    by (simp add: findIndex_None)
  then obtain k where k: "findIndex (\<lambda>x. \<not> valid x) ls = Some k" by blast
  then have pk: "pickVictimLRU ls = k" by (simp add: pickVictimLRU_def)
  from findIndex_Some[OF k] pk
  show "pickVictimLRU ls < length ls" "\<not> valid (ls ! pickVictimLRU ls)"
    "\<forall>j<pickVictimLRU ls. valid (ls ! j)"
    by simp_all
next
  assume a: "ls \<noteq> [] \<and> (\<forall>i<length ls. valid (ls ! i))"
  then have "findIndex (\<lambda>x. \<not> valid x) ls = None" by (simp add: findIndex_None)
  then have pk: "pickVictimLRU ls = lruScan ls 0 1" by (simp add: pickVictimLRU_def)
  have "0 < (1::nat)" "1 \<le> length ls" using a by (simp_all add: Suc_le_eq)
  moreover have "\<forall>j<1. lastUsed (ls ! 0) \<le> lastUsed (ls ! j)" by simp
  moreover have "\<forall>j<0. lastUsed (ls ! 0) < lastUsed (ls ! j)" by simp
  ultimately have s: "lruScan ls 0 1 < length ls
         \<and> (\<forall>j<length ls. lastUsed (ls ! lruScan ls 0 1) \<le> lastUsed (ls ! j))
         \<and> (\<forall>j<lruScan ls 0 1. lastUsed (ls ! lruScan ls 0 1) < lastUsed (ls ! j))"
    by (rule lruScan_spec)
  from s pk show "pickVictimLRU ls < length ls"
    "\<forall>j<length ls. lastUsed (ls ! pickVictimLRU ls) \<le> lastUsed (ls ! j)"
    "\<forall>j<pickVictimLRU ls. lastUsed (ls ! pickVictimLRU ls) < lastUsed (ls ! j)"
    by simp_all
qed

text \<open>
  Claim C5. For every set of lines, \<^verbatim>\<open>pickVictimLRU\<close> returns the index of the first invalid
  line when there is one; when every line is valid it returns the index of a line of least
  \<^verbatim>\<open>lastUsed\<close>, and every line before that index has a strictly greater \<^verbatim>\<open>lastUsed\<close>, so among
  equal minima the lowest index is returned. The statement is about lines of any record
  extension, hence about the cache's copy of the function and the TLB's.
\<close>

theorem pickVictimLRU_spec:
  fixes ls :: "'a line_scheme list"
  shows "((\<exists>i<length ls. \<not> valid (ls ! i)) \<longrightarrow>
            pickVictimLRU ls < length ls \<and> \<not> valid (ls ! pickVictimLRU ls)
            \<and> (\<forall>j<pickVictimLRU ls. valid (ls ! j)))
       \<and> (ls \<noteq> [] \<and> (\<forall>i<length ls. valid (ls ! i)) \<longrightarrow>
            pickVictimLRU ls < length ls
            \<and> (\<forall>j<length ls. lastUsed (ls ! pickVictimLRU ls) \<le> lastUsed (ls ! j))
            \<and> (\<forall>j<pickVictimLRU ls. lastUsed (ls ! pickVictimLRU ls) < lastUsed (ls ! j)))"
  by (rule pickVictimLRU_props)

theorem pickVictimLRU_spec_witness:
  "pickVictimLRU
     [\<lparr> valid = True, tag = 1, lastUsed = 5, ppn = 10, flags = ''R'' \<rparr>,
      \<lparr> valid = False, tag = 2, lastUsed = 3, ppn = 11, flags = ''R'' \<rparr>,
      \<lparr> valid = False, tag = 3, lastUsed = 1, ppn = 12, flags = ''R'' \<rparr>] = 1
   \<and> pickVictimLRU
     [\<lparr> valid = True, tag = 1, lastUsed = 5 \<rparr>, \<lparr> valid = True, tag = 2, lastUsed = 3 \<rparr>,
      \<lparr> valid = True, tag = 3, lastUsed = 3 \<rparr>, \<lparr> valid = True, tag = 4, lastUsed = 9 \<rparr>] = 1"
proof -
  let ?t = "[\<lparr> valid = True, tag = 1, lastUsed = 5, ppn = 10, flags = ''R'' \<rparr>,
      \<lparr> valid = False, tag = 2, lastUsed = 3, ppn = 11, flags = ''R'' \<rparr>,
      \<lparr> valid = False, tag = 3, lastUsed = 1, ppn = 12, flags = ''R'' \<rparr>]"
  let ?c = "[\<lparr> valid = True, tag = 1, lastUsed = 5 \<rparr>, \<lparr> valid = True, tag = 2, lastUsed = 3 \<rparr>,
      \<lparr> valid = True, tag = 3, lastUsed = 3 \<rparr>, \<lparr> valid = True, tag = 4, lastUsed = 9 \<rparr>]"
  have "\<exists>i<length ?t. \<not> valid (?t ! i)"
    by (rule exI [of _ 1]) simp
  with pickVictimLRU_spec [of ?t]
  have t: "pickVictimLRU ?t < length ?t" "\<not> valid (?t ! pickVictimLRU ?t)"
    "\<forall>j<pickVictimLRU ?t. valid (?t ! j)"
    by blast+
  have t1: "pickVictimLRU ?t = 1"
  proof -
    from t(1) have "pickVictimLRU ?t < 3" by simp
    then consider "pickVictimLRU ?t = 0" | "pickVictimLRU ?t = 1" | "pickVictimLRU ?t = 2"
      by linarith
    then show ?thesis
    proof cases
      case 1
      with t(2) show ?thesis by simp
    next
      case 2
      then show ?thesis .
    next
      case 3
      then have "1 < pickVictimLRU ?t" by simp
      with t(3) have "valid (?t ! 1)" by blast
      then show ?thesis by simp
    qed
  qed
  have "?c \<noteq> [] \<and> (\<forall>i<length ?c. valid (?c ! i))"
    by (simp add: nth_Cons' less_Suc_eq numeral_eq_Suc)
  with pickVictimLRU_spec [of ?c]
  have c: "pickVictimLRU ?c < length ?c"
    "\<forall>j<length ?c. lastUsed (?c ! pickVictimLRU ?c) \<le> lastUsed (?c ! j)"
    "\<forall>j<pickVictimLRU ?c. lastUsed (?c ! pickVictimLRU ?c) < lastUsed (?c ! j)"
    by blast+
  have c1: "pickVictimLRU ?c = 1"
  proof -
    from c(1) have "pickVictimLRU ?c < 4" by simp
    then consider "pickVictimLRU ?c = 0" | "pickVictimLRU ?c = 1" | "pickVictimLRU ?c = 2"
      | "pickVictimLRU ?c = 3"
      by linarith
    then show ?thesis
    proof cases
      case 1
      have "1 < length ?c" by simp
      with c(2) have "lastUsed (?c ! pickVictimLRU ?c) \<le> lastUsed (?c ! 1)" by blast
      with 1 show ?thesis by simp
    next
      case 2
      then show ?thesis .
    next
      case 3
      then have "1 < pickVictimLRU ?c" by simp
      with c(3) have "lastUsed (?c ! pickVictimLRU ?c) < lastUsed (?c ! 1)" by blast
      with 3 show ?thesis by simp
    next
      case 4
      have "1 < length ?c" by simp
      with c(2) have "lastUsed (?c ! pickVictimLRU ?c) \<le> lastUsed (?c ! 1)" by blast
      with 4 show ?thesis by simp
    qed
  qed
  from t1 c1 show ?thesis by simp
qed

section \<open>The radix of a numeric token\<close>

lemma dropWhile_none: "list_all (\<lambda>c. \<not> P c) s \<Longrightarrow> dropWhile P s = s"
  by (cases s) simp_all

lemma trim_id: "list_all (\<lambda>c. \<not> isWhiteSpace c) s \<Longrightarrow> trim s = s"
proof -
  assume a: "list_all (\<lambda>c. \<not> isWhiteSpace c) s"
  then have "list_all (\<lambda>c. \<not> isWhiteSpace c) (rev s)" by (simp add: list_all_iff)
  with a show ?thesis by (simp add: trim_def dropWhile_none)
qed

lemma isHexDigit_cases:
  "isHexDigit c \<Longrightarrow> c \<in> set ''0123456789abcdefABCDEF''"
  by (auto simp: isHexDigit_def isDecDigit_def isHexLetter_def)

lemma hex_not_ws: "isHexDigit c \<Longrightarrow> \<not> isWhiteSpace c"
  by (drule isHexDigit_cases) (auto simp: isWhiteSpace_def)

lemma hex_lower: "isHexDigit c \<Longrightarrow> isHexDigit (toLowerChar c)"
  apply (drule isHexDigit_cases)
  apply simp
  apply (elim disjE)
  apply (simp_all add: toLowerChar_def isHexDigit_def isDecDigit_def isHexLetter_def)
  done

lemma hex_lower_plain:
  "isHexDigit c \<Longrightarrow> toLowerChar c \<noteq> CHR ''_'' \<and> toLowerChar c \<noteq> CHR ''x'' \<and> \<not> isWhiteSpace (toLowerChar c)"
  apply (drule isHexDigit_cases)
  apply simp
  apply (elim disjE)
  apply (simp_all add: toLowerChar_def isWhiteSpace_def)
  done

lemma digitVal_lower: "isHexDigit c \<Longrightarrow> digitVal (toLowerChar c) = digitVal c"
  apply (drule isHexDigit_cases)
  apply simp
  apply (elim disjE)
  apply (simp_all add: digitVal_def toLowerChar_def)
  done

lemma foldl_digits_lower:
  "list_all isHexDigit s \<Longrightarrow>
   foldl (\<lambda>acc c. acc * b + digitVal c) z (map toLowerChar s) = foldl (\<lambda>acc c. acc * b + digitVal c) z s"
  by (induction s arbitrary: z) (simp_all add: digitVal_lower)

lemma digitsValue_lower:
  "list_all isHexDigit s \<Longrightarrow> digitsValue b (map toLowerChar s) = digitsValue b s"
  by (simp add: digitsValue_def foldl_digits_lower)

lemma dec_is_hex: "isDecDigit c \<Longrightarrow> isHexDigit c"
  by (simp add: isHexDigit_def)

lemma dec_not_letter: "isDecDigit c \<Longrightarrow> \<not> isHexLetter c \<and> c \<noteq> CHR ''x'' \<and> c \<noteq> CHR ''X''"
  by (auto simp: isDecDigit_def isHexLetter_def)

lemma hex_not_x: "isHexDigit c \<Longrightarrow> c \<noteq> CHR ''x'' \<and> c \<noteq> CHR ''X''"
  by (drule isHexDigit_cases) auto

lemma take2_no_x:
  assumes "list_all (\<lambda>c. c \<noteq> x) s"
  shows "take 2 s \<noteq> [y, x]"
proof
  assume "take 2 s = [y, x]"
  then have "x \<in> set (take 2 s)" by simp
  then have "x \<in> set s" by (rule in_set_takeD)
  with assms show False by (auto simp: list_all_iff)
qed

lemma parseHex_plain:
  assumes "t \<noteq> []" "list_all isHexDigit t"
  shows "parseHexToBigInt t = Inr (digitsValue 16 t)"
proof -
  let ?s = "map toLowerChar t"
  have ws: "list_all (\<lambda>c. \<not> isWhiteSpace c) t"
    using assms(2) by (auto simp: list_all_iff hex_not_ws)
  then have tr: "trim t = t" by (rule trim_id)
  have f1: "filter (\<lambda>c. c \<noteq> CHR ''_'') ?s = ?s"
    using assms(2) by (auto simp: list_all_iff filter_id_conv hex_lower_plain)
  have f2: "filter (\<lambda>c. \<not> isWhiteSpace c) ?s = ?s"
    using assms(2) by (auto simp: list_all_iff filter_id_conv hex_lower_plain)
  have "list_all (\<lambda>c. c \<noteq> CHR ''x'') ?s"
    using assms(2) by (auto simp: list_all_iff hex_lower_plain)
  then have nx: "take 2 ?s \<noteq> ''0x''" by (rule take2_no_x)
  have hx: "list_all isHexDigit ?s"
    using assms(2) by (auto simp: list_all_iff hex_lower)
  have sh: "strippedHex t = ?s"
    unfolding strippedHex_def Let_def tr f1 f2 using nx by simp
  show ?thesis
    unfolding parseHexToBigInt_def Let_def sh
    using assms hx by (simp add: tr digitsValue_lower)
qed

lemma parseHex_prefixed:
  assumes "h \<noteq> []" "list_all isHexDigit h" "p = ''0x'' \<or> p = ''0X''"
  shows "parseHexToBigInt (p @ h) = Inr (digitsValue 16 h)"
proof -
  let ?s = "map toLowerChar h"
  have "list_all (\<lambda>c. \<not> isWhiteSpace c) h"
    using assms(2) by (auto simp: list_all_iff hex_not_ws)
  moreover have "list_all (\<lambda>c. \<not> isWhiteSpace c) p"
    using assms(3) by (auto simp: isWhiteSpace_def)
  ultimately have ws: "list_all (\<lambda>c. \<not> isWhiteSpace c) (p @ h)" by simp
  then have tr: "trim (p @ h) = p @ h" by (rule trim_id)
  have lp: "map toLowerChar p = ''0x''"
    using assms(3) by (auto simp: toLowerChar_def)
  have f1: "filter (\<lambda>c. c \<noteq> CHR ''_'') ?s = ?s"
    using assms(2) by (auto simp: list_all_iff filter_id_conv hex_lower_plain)
  have f2: "filter (\<lambda>c. \<not> isWhiteSpace c) ?s = ?s"
    using assms(2) by (auto simp: list_all_iff filter_id_conv hex_lower_plain)
  have hx: "list_all isHexDigit ?s"
    using assms(2) by (auto simp: list_all_iff hex_lower)
  have ws0x: "\<not> isWhiteSpace CHR ''0''" "\<not> isWhiteSpace CHR ''x''"
    by (simp_all add: isWhiteSpace_def)
  have m: "map toLowerChar (trim (p @ h)) = ''0x'' @ ?s"
    by (simp add: tr lp)
  have g1: "filter (\<lambda>c. c \<noteq> CHR ''_'') (''0x'' @ ?s) = ''0x'' @ ?s"
    by (simp add: f1)
  have g2: "filter (\<lambda>c. \<not> isWhiteSpace c) (''0x'' @ ?s) = ''0x'' @ ?s"
    using ws0x by (simp add: f2)
  have sh: "strippedHex (p @ h) = ?s"
    unfolding strippedHex_def Let_def m g1 g2 by simp
  show ?thesis
    unfolding parseHexToBigInt_def Let_def sh m
    using assms(1,2) hx by (simp add: digitsValue_lower)
qed

lemma parseNum_dec:
  assumes a: "t \<noteq> []" "list_all isDecDigit t"
  shows "parseNumToBigInt t name = Inr (digitsValue 10 t)"
proof -
  have ws: "list_all (\<lambda>c. \<not> isWhiteSpace c) t"
    using a by (auto simp: list_all_iff dec_is_hex hex_not_ws)
  then have tr: "trim t = t" by (rule trim_id)
  have nl: "\<not> list_ex isHexLetter t"
    using a by (auto simp: list_all_iff list_ex_iff dec_not_letter)
  have x1: "list_all (\<lambda>c. c \<noteq> CHR ''x'') t" and x2: "list_all (\<lambda>c. c \<noteq> CHR ''X'') t"
    using a by (auto simp: list_all_iff dec_not_letter)
  have "take 2 t \<noteq> ''0x''" using x1 by (rule take2_no_x)
  moreover have "take 2 t \<noteq> ''0X''" using x2 by (rule take2_no_x)
  ultimately have np: "\<not> has0xPrefix t"
    by (simp add: has0xPrefix_def)
  have md: "matchesDec t" using a by (simp add: matchesDec_def)
  show ?thesis
    unfolding parseNumToBigInt_def Let_def tr using a(1) nl np md by simp
qed

lemma parseNum_prefixed:
  assumes a: "h \<noteq> []" "list_all isHexDigit h" "p = ''0x'' \<or> p = ''0X''"
  shows "parseNumToBigInt (p @ h) name = Inr (digitsValue 16 h)"
proof -
  have "list_all (\<lambda>c. \<not> isWhiteSpace c) h"
    using a by (auto simp: list_all_iff hex_not_ws)
  moreover have "list_all (\<lambda>c. \<not> isWhiteSpace c) p"
    using a by (auto simp: isWhiteSpace_def)
  ultimately have ws: "list_all (\<lambda>c. \<not> isWhiteSpace c) (p @ h)" by simp
  then have tr: "trim (p @ h) = p @ h" by (rule trim_id)
  have hp: "has0xPrefix (p @ h)" using a by (auto simp: has0xPrefix_def)
  have dr: "drop 2 (p @ h) = h" using a by auto
  have m: "matches0xHex (p @ h)"
    unfolding matches0xHex_def matchesHex_def dr using a(1,2) hp by simp
  have ne: "p @ h \<noteq> []" using a by simp
  note ph = parseHex_prefixed [OF a]
  show ?thesis
    unfolding parseNumToBigInt_def Let_def tr using m hp ne ph by simp
qed

lemma parseNum_letter:
  assumes a: "t \<noteq> []" "list_all isHexDigit t" "list_ex isHexLetter t"
  shows "parseNumToBigInt t name = Inr (digitsValue 16 t)"
proof -
  have ws: "list_all (\<lambda>c. \<not> isWhiteSpace c) t"
    using a by (auto simp: list_all_iff hex_not_ws)
  then have tr: "trim t = t" by (rule trim_id)
  have ph: "parseHexToBigInt t = Inr (digitsValue 16 t)"
    using a(1,2) by (rule parseHex_plain)
  have m: "matchesHex t" using a by (simp add: matchesHex_def)
  show ?thesis
    unfolding parseNumToBigInt_def Let_def tr using a(1,3) m ph by simp
qed

lemma ten_dec: "parseNumToBigInt ''10'' name = Inr 10"
proof -
  have "list_all isDecDigit ''10''" by (simp add: isDecDigit_def)
  then have "parseNumToBigInt ''10'' name = Inr (digitsValue 10 ''10'')"
    by (intro parseNum_dec) simp_all
  moreover have "digitsValue 10 ''10'' = 10" by code_simp
  ultimately show ?thesis by simp
qed

lemma ten_hex: "parseHexToBigInt ''10'' = Inr 16"
  by code_simp

text \<open>
  Claim C10. In \<^verbatim>\<open>parseNumToBigInt\<close>, which reads the page-table mappings and the seed rows, a
  token of decimal digits only is read in base 10, a token of hexadecimal digits behind
  \<^verbatim>\<open>0x\<close> or with a letter among them is read in base 16; \<^verbatim>\<open>parseHexToBigInt\<close>, which reads
  the address list, reads every token of hexadecimal digits in base 16, with the prefix or
  without. So \<^verbatim>\<open>10\<close> is ten in a mapping and sixteen in the address list.
\<close>

theorem radix_of_tokens:
  "(d \<noteq> [] \<and> list_all isDecDigit d \<longrightarrow> parseNumToBigInt d name = Inr (digitsValue 10 d))
 \<and> (h \<noteq> [] \<and> list_all isHexDigit h \<and> (p = ''0x'' \<or> p = ''0X'') \<longrightarrow>
       parseNumToBigInt (p @ h) name = Inr (digitsValue 16 h))
 \<and> (l \<noteq> [] \<and> list_all isHexDigit l \<and> list_ex isHexLetter l \<longrightarrow>
       parseNumToBigInt l name = Inr (digitsValue 16 l))
 \<and> (t \<noteq> [] \<and> list_all isHexDigit t \<longrightarrow>
       parseHexToBigInt t = Inr (digitsValue 16 t)
       \<and> parseHexToBigInt (''0x'' @ t) = Inr (digitsValue 16 t))
 \<and> parseNumToBigInt ''10'' name = Inr 10
 \<and> parseHexToBigInt ''10'' = Inr 16"
  using parseNum_dec [of d name] parseNum_prefixed [of h p name] parseNum_letter [of l name]
    parseHex_plain [of t] parseHex_prefixed [of t "''0x''"] ten_dec [of name] ten_hex
  by simp

theorem radix_of_tokens_witness:
  "parseNumToBigInt ''291'' ''VPN'' = Inr 291
   \<and> parseNumToBigInt ''0x123'' ''VPN'' = Inr 291
   \<and> parseNumToBigInt ''1f'' ''VPN'' = Inr 31
   \<and> parseHexToBigInt ''291'' = Inr 657
   \<and> parseHexToBigInt ''0x291'' = Inr 657"
proof -
  have d: "''291'' \<noteq> [] \<and> list_all isDecDigit ''291''"
    by (simp add: isDecDigit_def)
  have h: "''123'' \<noteq> [] \<and> list_all isHexDigit ''123'' \<and> (''0x'' = ''0x'' \<or> ''0x'' = ''0X'')"
    by (simp add: isHexDigit_def isDecDigit_def)
  have l: "''1f'' \<noteq> [] \<and> list_all isHexDigit ''1f'' \<and> list_ex isHexLetter ''1f''"
    by (simp add: isHexDigit_def isDecDigit_def isHexLetter_def)
  have t: "''291'' \<noteq> [] \<and> list_all isHexDigit ''291''"
    by (simp add: isHexDigit_def isDecDigit_def)
  have v: "digitsValue 10 ''291'' = 291" "digitsValue 16 ''123'' = 291"
    "digitsValue 16 ''1f'' = 31" "digitsValue 16 ''291'' = 657"
    by code_simp+
  from radix_of_tokens [of "''291''" "''VPN''" "''123''" "''0x''" "''1f''" "''291''"] d h l t v
  show ?thesis by simp
qed

section \<open>The cache simulation\<close>

text \<open>\<open>uniqueTags\<close> says that two different valid lines of a set never hold the same tag.\<close>

lemma tag_notin_iff:
  "t \<notin> set (map tag (filter valid xs)) \<longleftrightarrow> (\<forall>j<length xs. valid (xs ! j) \<longrightarrow> tag (xs ! j) \<noteq> t)"
  by (auto simp: in_set_conv_nth image_iff) 

lemma uniqueTags_iff:
  "uniqueTags ls \<longleftrightarrow>
     (\<forall>i<length ls. \<forall>j<length ls.
        i \<noteq> j \<and> valid (ls ! i) \<and> valid (ls ! j) \<longrightarrow> tag (ls ! i) \<noteq> tag (ls ! j))"
proof (induction ls)
  case Nil
  show ?case by (simp add: uniqueTags_def)
next
  case (Cons x xs)
  let ?R = "\<lambda>ys. \<forall>i<length ys. \<forall>j<length ys.
        i \<noteq> j \<and> valid (ys ! i) \<and> valid (ys ! j) \<longrightarrow> tag (ys ! i) \<noteq> tag (ys ! j)"
  have step: "?R (x # xs) \<longleftrightarrow>
         (valid x \<longrightarrow> (\<forall>j<length xs. valid (xs ! j) \<longrightarrow> tag (xs ! j) \<noteq> tag x)) \<and> ?R xs"
  proof
    assume r: "?R (x # xs)"
    have a: "valid x \<longrightarrow> (\<forall>j<length xs. valid (xs ! j) \<longrightarrow> tag (xs ! j) \<noteq> tag x)"
    proof (intro impI allI)
      fix j assume "valid x" "j < length xs" "valid (xs ! j)"
      with r[rule_format, of "Suc j" 0] show "tag (xs ! j) \<noteq> tag x" by simp
    qed
    have b: "?R xs"
    proof (intro impI allI)
      fix i j assume "i < length xs" "j < length xs" "i \<noteq> j \<and> valid (xs ! i) \<and> valid (xs ! j)"
      with r[rule_format, of "Suc i" "Suc j"] show "tag (xs ! i) \<noteq> tag (xs ! j)" by simp
    qed
    from a b show "(valid x \<longrightarrow> (\<forall>j<length xs. valid (xs ! j) \<longrightarrow> tag (xs ! j) \<noteq> tag x)) \<and> ?R xs"
      by blast
  next
    assume h: "(valid x \<longrightarrow> (\<forall>j<length xs. valid (xs ! j) \<longrightarrow> tag (xs ! j) \<noteq> tag x)) \<and> ?R xs"
    show "?R (x # xs)"
    proof (intro impI allI)
      fix i j assume ij: "i < length (x # xs)" "j < length (x # xs)"
        "i \<noteq> j \<and> valid ((x # xs) ! i) \<and> valid ((x # xs) ! j)"
      show "tag ((x # xs) ! i) \<noteq> tag ((x # xs) ! j)"
      proof (cases i)
        case 0
        with ij obtain j' where j': "j = Suc j'" by (cases j) auto
        with 0 ij h have "tag (xs ! j') \<noteq> tag x" by simp
        with 0 j' show ?thesis by simp
      next
        case (Suc i')
        show ?thesis
        proof (cases j)
          case 0
          with Suc ij h have "tag (xs ! i') \<noteq> tag x" by simp
          with 0 Suc show ?thesis by simp
        next
          case (Suc j')
          with \<open>i = Suc i'\<close> ij h have "tag (xs ! i') \<noteq> tag (xs ! j')" by simp
          with Suc \<open>i = Suc i'\<close> show ?thesis by simp
        qed
      qed
    qed
  qed
  have "uniqueTags (x # xs) \<longleftrightarrow>
          (valid x \<longrightarrow> tag x \<notin> set (map tag (filter valid xs))) \<and> uniqueTags xs"
    by (simp add: uniqueTags_def)
  also have "\<dots> \<longleftrightarrow> (valid x \<longrightarrow> (\<forall>j<length xs. valid (xs ! j) \<longrightarrow> tag (xs ! j) \<noteq> tag x)) \<and> ?R xs"
    using Cons.IH by (simp only: tag_notin_iff)
  also have "\<dots> \<longleftrightarrow> ?R (x # xs)" using step by simp
  finally show ?case .
qed

lemma hitWay_None_notin:
  "hitWay ls t = None \<Longrightarrow> t \<notin> set (map tag (filter valid ls))"
proof
  assume n: "hitWay ls t = None" and "t \<in> set (map tag (filter valid ls))"
  then obtain ln where "ln \<in> set ls" "valid ln" "tag ln = t" by auto
  then obtain i where "i < length ls" "ls ! i = ln" by (auto simp: in_set_conv_nth)
  with \<open>valid ln\<close> \<open>tag ln = t\<close> n show False
    by (auto simp: hitWay_def findIndex_None)
qed

lemma hitWay_Some_lt: "hitWay ls t = Some w \<Longrightarrow> w < length ls"
  by (auto simp: hitWay_def dest: findIndex_Some)

lemma touch_tags:
  "map tag (filter valid (ls[w := (ls ! w)\<lparr> lastUsed := n \<rparr>])) = map tag (filter valid ls)"
proof (induction ls arbitrary: w)
  case Nil
  then show ?case by simp
next
  case (Cons x xs)
  then show ?case by (cases w) simp_all
qed

lemma fill_tags_subset:
  "valid new \<Longrightarrow> set (map tag (filter valid (ls[v := new])))
     \<subseteq> insert (tag new) (set (map tag (filter valid ls)))"
proof (induction ls arbitrary: v)
  case Nil
  then show ?case by simp
next
  case (Cons x xs)
  show ?case
  proof (cases v)
    case 0
    with Cons.prems show ?thesis by auto
  next
    case (Suc v')
    from Cons.IH[OF Cons.prems, of v'] Suc show ?thesis by auto
  qed
qed

lemma fill_unique:
  assumes "valid new" "tag new \<notin> set (map tag (filter valid ls))" "uniqueTags ls"
  shows "uniqueTags (ls[v := new])"
  using assms
proof (induction ls arbitrary: v)
  case Nil
  then show ?case by simp
next
  case (Cons x xs)
  show ?case
  proof (cases v)
    case 0
    with Cons.prems show ?thesis by (auto simp: uniqueTags_def split: if_splits)
  next
    case (Suc v')
    have nt: "tag new \<notin> set (map tag (filter valid xs))"
      using Cons.prems(2) by (auto split: if_splits)
    have ux: "uniqueTags xs"
      using Cons.prems(3) by (auto simp: uniqueTags_def split: if_splits)
    from Cons.IH[OF Cons.prems(1) nt ux] have ih: "uniqueTags (xs[v' := new])" .
    show ?thesis
    proof (cases "valid x")
      case False
      with ih Suc show ?thesis by (simp add: uniqueTags_def)
    next
      case True
      then have "tag x \<noteq> tag new" using Cons.prems(2) by auto
      moreover from True have "tag x \<notin> set (map tag (filter valid xs))"
        using Cons.prems(3) by (simp add: uniqueTags_def)
      ultimately have "tag x \<notin> set (map tag (filter valid (xs[v' := new])))"
        using fill_tags_subset[OF Cons.prems(1), of xs v'] by auto
      with ih True Suc show ?thesis by (simp add: uniqueTags_def)
    qed
  qed
qed

lemma cacheUnique_update:
  "cacheUnique ss \<Longrightarrow> uniqueTags ls \<Longrightarrow> cacheUnique (ss[i := ls])"
  unfolding cacheUnique_def list_all_iff
  using set_update_subset_insert[of ss i ls] by auto

lemma cacheUnique_nth: "cacheUnique ss \<Longrightarrow> i < length ss \<Longrightarrow> uniqueTags (ss ! i)"
  by (simp add: cacheUnique_def list_all_length)

lemma cacheStep_unique:
  assumes "cacheStep ob ib st a = Inr st'" "cacheUnique (sets st)"
  shows "cacheUnique (sets st')"
proof -
  let ?i = "nat (fieldIndex ob ib a)"
  let ?tg = "fieldTag ob ib a"
  let ?ls = "sets st ! ?i"
  from assms(1) have inr: "?i < length (sets st)"
    by (auto simp: cacheStep_def Let_def split: if_splits)
  with assms(2) have u: "uniqueTags ?ls" by (rule cacheUnique_nth)
  show ?thesis
  proof (cases "hitWay ?ls ?tg")
    case (Some w)
    with assms(1) inr have "sets st' = (sets st)[?i := ?ls[w := (?ls ! w)\<lparr> lastUsed := time st + 1 \<rparr>]]"
      by (auto simp: cacheStep_def Let_def split: if_splits)
    moreover have "uniqueTags (?ls[w := (?ls ! w)\<lparr> lastUsed := time st + 1 \<rparr>])"
      using u by (simp add: uniqueTags_def touch_tags)
    ultimately show ?thesis using assms(2) by (simp add: cacheUnique_update)
  next
    case None
    let ?new = "(?ls ! pickVictimLRU ?ls)\<lparr> valid := True, tag := ?tg, lastUsed := time st + 1 \<rparr>"
    from None assms(1) inr have "sets st' = (sets st)[?i := ?ls[pickVictimLRU ?ls := ?new]]"
      by (auto simp: cacheStep_def Let_def split: if_splits)
    moreover have "uniqueTags (?ls[pickVictimLRU ?ls := ?new])"
      using hitWay_None_notin[OF None] u by (intro fill_unique) simp_all
    ultimately show ?thesis using assms(2) by (simp add: cacheUnique_update)
  qed
qed

lemma cacheLoop_unique:
  "cacheLoop ob ib st as = Inr st' \<Longrightarrow> cacheUnique (sets st) \<Longrightarrow> cacheUnique (sets st')"
proof (induction as arbitrary: st)
  case Nil
  then show ?case by simp
next
  case (Cons a as)
  from Cons.prems(1) obtain st1 where s: "cacheStep ob ib st a = Inr st1"
    and l: "cacheLoop ob ib st1 as = Inr st'"
    by (auto split: sum.splits)
  from cacheStep_unique[OF s Cons.prems(2)] Cons.IH[OF l] show ?case by simp
qed

lemma initCache_unique: "cacheUnique (initCache n m)"
  by (simp add: cacheUnique_def initCache_def list_all_iff uniqueTags_def)




lemma parseAll_length: "parseAll ls = Inr as \<Longrightarrow> length as = length ls"
  by (induction ls arbitrary: as) (auto split: sum.splits)



lemma pickVictimLRU_lt:
  fixes ls :: "'a line_scheme list"
  assumes "ls \<noteq> []"
  shows "pickVictimLRU ls < length ls"
proof (cases "findIndex (\<lambda>x. \<not> valid x) ls")
  case None
  have "lruScan ls 0 1 < length ls
         \<and> (\<forall>j<length ls. lastUsed (ls ! lruScan ls 0 1) \<le> lastUsed (ls ! j))
         \<and> (\<forall>j<lruScan ls 0 1. lastUsed (ls ! lruScan ls 0 1) < lastUsed (ls ! j))"
    using assms by (intro lruScan_spec) (simp_all add: Suc_le_eq)
  with None show ?thesis by (simp add: pickVictimLRU_def)
next
  case (Some k)
  with findIndex_Some[OF Some] show ?thesis by (simp add: pickVictimLRU_def)
qed

lemma fieldIndex_range:
  assumes "0 \<le> ib"
  shows "0 \<le> fieldIndex ob ib a \<and> fieldIndex ob ib a < 2 ^ nat ib"
  by (simp add: fieldIndex_def and_maskBits take_bit_int_less_exp)

lemma cacheStep_total:
  assumes "length (sets st) = 2 ^ nat ib" "0 \<le> ib" "list_all (\<lambda>ls. ls \<noteq> []) (sets st)"
  shows "\<exists>st'. cacheStep ob ib st a = Inr st' \<and> length (sets st') = 2 ^ nat ib
           \<and> list_all (\<lambda>ls. ls \<noteq> []) (sets st')"
proof -
  let ?idx = "fieldIndex ob ib a"
  let ?i = "nat ?idx"
  let ?ls = "sets st ! ?i"
  from fieldIndex_range[OF assms(2), of ob a]
  have r: "0 \<le> ?idx" "?idx < 2 ^ nat ib" by simp_all
  then have "?i < nat (2 ^ nat ib)" by (simp add: nat_less_iff)
  then have i: "?i < length (sets st)" using assms(1) by (simp add: nat_power_eq)
  with assms(3) have ne: "?ls \<noteq> []" by (simp add: list_all_length)
  have keep: "\<And>ls'. ls' \<noteq> [] \<Longrightarrow> list_all (\<lambda>ls. ls \<noteq> []) ((sets st)[?i := ls'])"
    using assms(3) set_update_subset_insert[of "sets st" ?i] by (auto simp: list_all_iff)
  show ?thesis
  proof (cases "hitWay ?ls (fieldTag ob ib a)")
    case (Some w)
    from keep[of "?ls[w := (?ls ! w)\<lparr> lastUsed := time st + 1 \<rparr>]"] ne Some i r(1) assms(1)
    show ?thesis
      by (simp add: cacheStep_def Let_def)
  next
    case None
    let ?v = "pickVictimLRU ?ls"
    have v: "?v < length ?ls" using ne by (rule pickVictimLRU_lt)
    from keep[of "?ls[?v := (?ls ! ?v)\<lparr> valid := True, tag := fieldTag ob ib a, lastUsed := time st + 1 \<rparr>]"]
      ne None i r(1) v assms(1)
    show ?thesis
      by (simp add: cacheStep_def Let_def)
  qed
qed

lemma cacheLoop_total:
  assumes "length (sets st) = 2 ^ nat ib" "0 \<le> ib" "list_all (\<lambda>ls. ls \<noteq> []) (sets st)"
  shows "\<exists>st'. cacheLoop ob ib st as = Inr st'"
  using assms
proof (induction as arbitrary: st)
  case Nil
  then show ?case by simp
next
  case (Cons a as)
  from cacheStep_total[OF Cons.prems, of ob a] obtain st1 where
    s: "cacheStep ob ib st a = Inr st1" and w: "length (sets st1) = 2 ^ nat ib"
    "list_all (\<lambda>ls. ls \<noteq> []) (sets st1)"
    by blast
  from Cons.IH[OF w(1) Cons.prems(2) w(2)] s show ?case by simp
qed

lemma pow2_index_bits:
  assumes "isPowerOfTwo n" "n < 2 ^ 32"
  shows "\<exists>k<32. n = 2 ^ k \<and> log2IntPow2 n = Inr (int k)"
proof -
  from assms(1) have pos: "0 < n" by (simp add: isPowerOfTwo_def)
  with assms isPowerOfTwo_below[of n] obtain k where k: "n = 2 ^ k" by blast
  have "k < 32"
  proof (rule ccontr)
    assume "\<not> k < 32"
    then have "(2::int) ^ 32 \<le> 2 ^ k" by (intro power_increasing) simp_all
    with k assms(2) show False by simp
  qed
  with k log2IntPow2_pow2[of k] show ?thesis by blast
qed

lemma cacheSplitOf_wf:
  assumes "cacheSplitOf addrBits cacheSize blockSize assoc = Inr sp" "cs_numSets sp < 2 ^ 32"
  shows "0 < cs_assoc sp \<and> 0 \<le> cs_indexBits sp \<and> cs_numSets sp = 2 ^ nat (cs_indexBits sp)"
proof -
  let ?n = "cacheSize div blockSize div assoc"
  from assms(1) have a: "0 < assoc" "isPowerOfTwo ?n" "cs_assoc sp = assoc" "cs_numSets sp = ?n"
    by (auto simp: cacheSplitOf_def Let_def split: if_splits sum.splits)
  from a(2,4) assms(2) pow2_index_bits[of ?n] obtain k where
    k: "k < 32" "?n = 2 ^ k" "log2IntPow2 ?n = Inr (int k)"
    by auto
  have "cs_indexBits sp = int k"
  proof (cases "?n = 1")
    case True
    with k(2) have "(2::int) ^ k = 1" by simp
    then have "k = 0" by (cases k) (simp_all, presburger)
    moreover from True assms(1) have "cs_indexBits sp = 0"
      by (auto simp: cacheSplitOf_def Let_def split: if_splits sum.splits)
    ultimately show ?thesis by simp
  next
    case False
    with k(3) assms(1) show ?thesis
      by (auto simp: cacheSplitOf_def Let_def split: if_splits sum.splits)
  qed
  with a k show ?thesis by simp
qed

lemma cacheConfig_wf:
  assumes "cacheConfig s = Inr sp" "cs_numSets sp < 2 ^ 32"
  shows "0 < cs_assoc sp \<and> 0 \<le> cs_indexBits sp \<and> cs_numSets sp = 2 ^ nat (cs_indexBits sp)"
  using assms cacheSplitOf_wf
  by (auto simp: cacheConfig_def split: sum.splits)

lemma cacheInitial_wf:
  assumes "0 < cs_assoc sp" "0 \<le> cs_indexBits sp" "cs_numSets sp = 2 ^ nat (cs_indexBits sp)"
  shows "length (sets (cacheInitial sp)) = 2 ^ nat (cs_indexBits sp)
         \<and> list_all (\<lambda>ls. ls \<noteq> []) (sets (cacheInitial sp))"
  using assms by (simp add: cacheInitial_def initCache_def list_all_iff nat_power_eq)

lemma cacheCompute_total:
  assumes "cacheConfig s = Inr sp" "cs_numSets sp < 2 ^ 32"
    and "parseAddresses (ci_addresses s) = Inr addrs" "addrs \<noteq> []"
  shows "\<exists>out. cacheCompute s = Inr out"
proof -
  from cacheConfig_wf[OF assms(1,2)] have w: "0 < cs_assoc sp" "0 \<le> cs_indexBits sp"
    "cs_numSets sp = 2 ^ nat (cs_indexBits sp)" by simp_all
  from cacheInitial_wf[OF w] have i: "length (sets (cacheInitial sp)) = 2 ^ nat (cs_indexBits sp)"
    "list_all (\<lambda>ls. ls \<noteq> []) (sets (cacheInitial sp))" by simp_all
  from cacheLoop_total[OF i(1) w(2) i(2)] obtain st where
    "cacheLoop (cs_offsetBits sp) (cs_indexBits sp) (cacheInitial sp)
       (map (\<lambda>a. clampBigIntToBits a (cs_addrBits sp)) addrs) = Inr st"
    by blast
  with assms show ?thesis by (simp add: cacheCompute_def Let_def)
qed

text \<open>
  Claim C3. With \<^verbatim>\<open>addrBits = 32\<close>, \<^verbatim>\<open>cacheSize = 1024\<close>, \<^verbatim>\<open>blockSize = 16\<close> and
  \<^verbatim>\<open>associativity = 1\<close> the split is 4 offset bits, 64 sets, 6 index bits and 22 tag bits,
  and the addresses \<^verbatim>\<open>0x00000000\<close>, \<^verbatim>\<open>0x00000004\<close>, \<^verbatim>\<open>0x00000010\<close>, \<^verbatim>\<open>0x00000000\<close> (one per
  line) give MISS, HIT, MISS, HIT from the empty cache; no access evicts a valid line.
\<close>

theorem direct_mapped_scenario:
  "cacheCompute \<lparr> ci_addrBits = ''32'', ci_cacheSize = ''1024'', ci_blockSize = ''16'',
       ci_assoc = ''1'',
       ci_addresses = ''0x00000000'' @ [CHR 0x0A] @ ''0x00000004'' @ [CHR 0x0A]
                      @ ''0x00000010'' @ [CHR 0x0A] @ ''0x00000000'' \<rparr>
   = Inr \<lparr> co_split = \<lparr> cs_addrBits = 32, cs_cacheSize = 1024, cs_blockSize = 16, cs_assoc = 1,
                         cs_numBlocks = 64, cs_numSets = 64, cs_offsetBits = 4,
                         cs_indexBits = 6, cs_tagBits = 22 \<rparr>,
           co_accesses =
             [\<lparr> ca_addr = 0, ca_tag = 0, ca_index = 0, ca_offset = 0, ca_result = MISS,
                 ca_set = 0, ca_way = 0, ca_evicted = None \<rparr>,
              \<lparr> ca_addr = 4, ca_tag = 0, ca_index = 0, ca_offset = 4, ca_result = HIT,
                 ca_set = 0, ca_way = 0, ca_evicted = None \<rparr>,
              \<lparr> ca_addr = 16, ca_tag = 0, ca_index = 1, ca_offset = 0, ca_result = MISS,
                 ca_set = 1, ca_way = 0, ca_evicted = None \<rparr>,
              \<lparr> ca_addr = 0, ca_tag = 0, ca_index = 0, ca_offset = 0, ca_result = HIT,
                 ca_set = 0, ca_way = 0, ca_evicted = None \<rparr>],
           co_hits = 2, co_misses = 2, co_hitRate = 50, co_hitRateText = ''50.00'' \<rparr>"
  by code_simp

section \<open>The hit rate\<close>

text \<open>
  \<open>toDouble\<close> is rounding to the nearest double: \<open>binExp\<close> finds the binade of its argument,
  the result is a multiple \<open>M * 2^(e - 52)\<close> of the spacing of that binade with
  \<open>2^52 \<le> M \<le> 2^53\<close>, no multiple of the spacing is nearer, and so the result is off by at
  most \<open>x / 2^53\<close>.
\<close>

lemma floorLog2_nonneg: "0 \<le> floorLog2 n"
proof (induction n rule: floorLog2.induct)
  case (1 n)
  then show ?case by (subst floorLog2.simps) simp
qed

lemma floorLog2_bounds:
  "1 \<le> n \<Longrightarrow> 2 ^ nat (floorLog2 n) \<le> n \<and> n < 2 * 2 ^ nat (floorLog2 n)"
proof (induction n rule: floorLog2.induct)
  case (1 n)
  show ?case
  proof (cases "n < 2")
    case True
    with 1(2) have "n = 1" by simp
    then show ?thesis by (subst floorLog2.simps, subst (2) floorLog2.simps) simp
  next
    case False
    then have h: "1 \<le> n div 2" by simp
    from 1(1) [OF False h] have ih: "2 ^ nat (floorLog2 (n div 2)) \<le> n div 2"
      "n div 2 < 2 * 2 ^ nat (floorLog2 (n div 2))" by simp_all
    have f: "floorLog2 n = 1 + floorLog2 (n div 2)"
      using False by (subst floorLog2.simps) simp
    have k: "nat (floorLog2 n) = Suc (nat (floorLog2 (n div 2)))"
      using floorLog2_nonneg [of "n div 2"] by (simp add: f)
    from ih show ?thesis unfolding k by simp presburger
  qed
qed

lemma binExp_bounds:
  assumes "0 < x"
  shows "power_int 2 (binExp x) \<le> x \<and> x < power_int 2 (binExp x + 1)"
proof -
  obtain p q where pq: "quotient_of x = (p, q)" by (cases "quotient_of x")
  have q: "0 < q" using quotient_of_denom_pos [OF pq] .
  have x: "x = of_int p / of_int q" using quotient_of_div [OF pq] .
  have p: "0 < p" using assms q x by (simp add: zero_less_divide_iff)
  let ?a = "floorLog2 p" and ?b = "floorLog2 q"
  have a0: "0 \<le> ?a" and b0: "0 \<le> ?b" by (rule floorLog2_nonneg)+
  from floorLog2_bounds [of p] p have pa: "2 ^ nat ?a \<le> p" "p < 2 * 2 ^ nat ?a" by simp_all
  from floorLog2_bounds [of q] q have qb: "2 ^ nat ?b \<le> q" "q < 2 * 2 ^ nat ?b" by simp_all
  have par: "(2::rat) ^ nat ?a \<le> of_int p" "(of_int p :: rat) < 2 * 2 ^ nat ?a"
    using pa of_int_le_iff [of "2 ^ nat ?a" p, where ?'a = rat]
      of_int_less_iff [of p "2 * 2 ^ nat ?a", where ?'a = rat] by simp_all
  have qbr: "(2::rat) ^ nat ?b \<le> of_int q" "(of_int q :: rat) < 2 * 2 ^ nat ?b"
    using qb of_int_le_iff [of "2 ^ nat ?b" q, where ?'a = rat]
      of_int_less_iff [of q "2 * 2 ^ nat ?b", where ?'a = rat] by simp_all
  have pa2: "power_int (2::rat) ?a = 2 ^ nat ?a" using a0 by (simp add: power_int_def)
  have pb2: "power_int (2::rat) ?b = 2 ^ nat ?b" using b0 by (simp add: power_int_def)
  have d: "power_int (2::rat) (?a - ?b) = 2 ^ nat ?a / 2 ^ nat ?b"
    by (simp add: power_int_diff pa2 pb2)
  have qr: "(0::rat) < of_int q" using q by simp
  have up: "x < power_int 2 (?a - ?b + 1)"
  proof -
    have "x < (2 * 2 ^ nat ?a) / of_int q" unfolding x using par(2) qr
      by (simp add: divide_strict_right_mono)
    also have "\<dots> \<le> (2 * 2 ^ nat ?a) / 2 ^ nat ?b"
      using qbr(1) by (simp add: frac_le)
    also have "\<dots> = power_int 2 (?a - ?b + 1)"
      by (simp add: power_int_add d)
    finally show ?thesis .
  qed
  have lo: "power_int 2 (?a - ?b - 1) \<le> x"
  proof -
    have "power_int (2::rat) (?a - ?b - 1) = 2 ^ nat ?a / (2 * 2 ^ nat ?b)"
      by (simp add: power_int_diff [of 2 "?a - ?b" 1] d)
    also have "\<dots> \<le> 2 ^ nat ?a / of_int q"
      using qbr(2) qr by (simp add: frac_le)
    also have "\<dots> \<le> x" unfolding x using par(1) qr by (simp add: divide_right_mono)
    finally show ?thesis .
  qed
  show ?thesis
  proof (cases "power_int 2 (?a - ?b) \<le> x")
    case True
    then have "binExp x = ?a - ?b" by (simp add: binExp_def pq)
    with True up show ?thesis by simp
  next
    case False
    then have "binExp x = ?a - ?b - 1" by (simp add: binExp_def pq)
    with False lo show ?thesis by simp
  qed
qed

lemma roundHalfEven_err: "\<bar>of_int (roundHalfEven q) - q\<bar> \<le> 1 / 2"
proof -
  have "of_int \<lfloor>q\<rfloor> \<le> q" "q < of_int \<lfloor>q\<rfloor> + 1" by linarith+
  then show ?thesis by (auto simp: roundHalfEven_def Let_def)
qed

lemma roundHalfEven_nearest: "\<bar>of_int (roundHalfEven q) - q\<bar> \<le> \<bar>of_int k - q\<bar>"
proof (cases "k = roundHalfEven q")
  case True
  then show ?thesis by simp
next
  case False
  then have "1 \<le> \<bar>k - roundHalfEven q\<bar>" by simp
  then have "(1::rat) \<le> \<bar>of_int k - of_int (roundHalfEven q)\<bar>"
    using of_int_le_iff [of 1 "\<bar>k - roundHalfEven q\<bar>", where ?'a = rat] by simp
  with roundHalfEven_err [of q] show ?thesis by linarith
qed

lemma roundHalfEven_ge: "of_int k \<le> q \<Longrightarrow> k \<le> roundHalfEven q"
proof -
  assume "of_int k \<le> q"
  then have "k \<le> \<lfloor>q\<rfloor>" by (simp add: le_floor_iff)
  then show ?thesis by (simp add: roundHalfEven_def Let_def)
qed

lemma roundHalfEven_le: "q \<le> of_int k \<Longrightarrow> roundHalfEven q \<le> k"
proof (cases "q = of_int k")
  case True
  then show ?thesis by (simp add: roundHalfEven_def Let_def)
next
  case False
  assume "q \<le> of_int k"
  with False have "q < of_int k" by simp
  then have "\<lfloor>q\<rfloor> < k" by (simp add: floor_less_iff)
  then show ?thesis by (simp add: roundHalfEven_def Let_def)
qed


lemma toDouble_pos:
  assumes "0 < x"
  shows "toDouble x = of_int (roundHalfEven (x / power_int 2 (binExp x - 52)))
                        * power_int 2 (binExp x - 52)"
  using assms by (simp add: toDouble_def Let_def)


lemma toDouble_significand:
  assumes "0 < x"
  shows "2 ^ 52 \<le> roundHalfEven (x / power_int 2 (binExp x - 52))
       \<and> roundHalfEven (x / power_int 2 (binExp x - 52)) \<le> 2 ^ 53"
proof -
  let ?u = "power_int (2::rat) (binExp x - 52)"
  have u: "0 < ?u" by (simp add: zero_less_power_int)
  have e: "power_int 2 (binExp x) = 2 ^ 52 * ?u"
    by (simp add: power_int_diff)
  have e1: "power_int 2 (binExp x + 1) = 2 ^ 53 * ?u"
    by (simp add: power_int_diff power_int_add)
  from binExp_bounds [OF assms] have "2 ^ 52 * ?u \<le> x" "x < 2 ^ 53 * ?u"
    unfolding e e1 by simp_all
  with u have "2 ^ 52 \<le> x / ?u" "x / ?u \<le> 2 ^ 53"
    by (simp_all add: pos_le_divide_eq pos_divide_le_eq)
  then have "of_int (2 ^ 52) \<le> x / ?u" "x / ?u \<le> of_int (2 ^ 53)" by simp_all
  then show ?thesis by (intro conjI roundHalfEven_ge roundHalfEven_le)
qed

lemma toDouble_nearest:
  assumes "0 < x"
  shows "\<bar>toDouble x - x\<bar> \<le> \<bar>of_int k * power_int 2 (binExp x - 52) - x\<bar>"
proof -
  let ?u = "power_int (2::rat) (binExp x - 52)"
  have u: "0 < ?u" by (simp add: zero_less_power_int)
  have s: "\<bar>of_int j * ?u - x\<bar> = \<bar>of_int j - x / ?u\<bar> * ?u" for j
  proof -
    have "of_int j * ?u - x = (of_int j - x / ?u) * ?u" using u by (simp add: field_simps)
    then show ?thesis using u by (simp add: abs_mult)
  qed
  from roundHalfEven_nearest [of "x / ?u" k] u
  have "\<bar>of_int (roundHalfEven (x / ?u)) - x / ?u\<bar> * ?u \<le> \<bar>of_int k - x / ?u\<bar> * ?u"
    by (simp add: mult_right_mono)
  then show ?thesis unfolding toDouble_pos [OF assms] s .
qed













text \<open>
  Values of the model against the doubles of the code. 23 hits in 160 accesses are 14.375
  percent; \<^verbatim>\<open>23 / 160\<close> is not a double, \<^verbatim>\<open>(23 / 160) * 100\<close> is \<^verbatim>\<open>14.374999999999998\<close>, the
  number \<open>8092405580431359 / 2^49\<close>, and \<^verbatim>\<open>toFixed(2)\<close> prints \<^verbatim>\<open>14.37\<close>. \<^verbatim>\<open>3.125\<close> is a double, and
  of \<^verbatim>\<open>3.12\<close> and \<^verbatim>\<open>3.13\<close>, equally near, \<^verbatim>\<open>toFixed\<close> takes the larger.
\<close>

lemma hitRateOf_23_of_160:
  "hitRateOf 23 137 = 8092405580431359 / 562949953421312
   \<and> toFixed2 (hitRateOf 23 137) = ''14.37''
   \<and> 100 * (23 / (23 + 137)) = (14375 / 1000 :: rat)"
  by code_simp

lemma hitRateOf_exact_cases:
  "hitRateOf 1 1 = 50 \<and> toFixed2 (hitRateOf 1 1) = ''50.00''
   \<and> hitRateOf 0 5 = 0 \<and> toFixed2 (hitRateOf 0 5) = ''0.00''
   \<and> hitRateOf 7 0 = 100 \<and> toFixed2 (hitRateOf 7 0) = ''100.00''
   \<and> hitRateOf 1 31 = 25 / 8 \<and> toFixed2 (hitRateOf 1 31) = ''3.13''
   \<and> hitRateOf 2 1 = 2345624805922133 / 35184372088832 \<and> toFixed2 (hitRateOf 2 1) = ''66.67''"
  by code_simp

text \<open>
  The same in a run: in a direct-mapped cache the addresses \<^verbatim>\<open>0x0\<close> and \<^verbatim>\<open>0x400\<close> share set 0,
  so 68 rounds of the two and one more \<^verbatim>\<open>0x0\<close> are 137 misses, and the 23 accesses to \<^verbatim>\<open>0x0\<close>
  that follow are hits.
\<close>

lemma cache_run_23_of_160:
  "map_sum id (\<lambda>out. (co_hits out, co_misses out, co_hitRate out, co_hitRateText out, length (co_accesses out)))
     (cacheCompute \<lparr> ci_addrBits = ''32'', ci_cacheSize = ''1024'', ci_blockSize = ''16'',
       ci_assoc = ''1'',
       ci_addresses = concat (replicate 68 (''0x0'' @ [CHR 0x0A] @ ''0x400'' @ [CHR 0x0A]))
                      @ concat (replicate 24 (''0x0'' @ [CHR 0x0A])) \<rparr>)
   = Inr (23, 137, 8092405580431359 / 562949953421312, ''14.37'', 160)"
  by code_simp




lemma cacheLoop_append:
  "cacheLoop ob ib st (xs @ ys) =
     (case cacheLoop ob ib st xs of Inl e \<Rightarrow> Inl e | Inr st1 \<Rightarrow> cacheLoop ob ib st1 ys)"
  by (induction xs arbitrary: st) (auto split: sum.splits)

lemma cacheInitial_unique: "cacheUnique (sets (cacheInitial sp))"
  by (simp add: cacheInitial_def initCache_unique)

text \<open>
  Claim C9. From the all-invalid store that \<^verbatim>\<open>initCache\<close> builds, after every prefix of an
  access sequence the loop gets through, no set holds two valid lines with the same tag.
\<close>

theorem cache_tags_stay_unique:
  assumes "cacheLoop ob ib (cacheInitial sp) addrs = Inr fin"
  shows "\<exists>st. cacheLoop ob ib (cacheInitial sp) (take k addrs) = Inr st \<and> cacheUnique (sets st)"
proof -
  from assms have "cacheLoop ob ib (cacheInitial sp) (take k addrs @ drop k addrs) = Inr fin"
    by simp
  then have c: "(case cacheLoop ob ib (cacheInitial sp) (take k addrs) of
          Inl e \<Rightarrow> Inl e | Inr st1 \<Rightarrow> cacheLoop ob ib st1 (drop k addrs)) = Inr fin"
    by (simp only: cacheLoop_append)
  obtain st where st: "cacheLoop ob ib (cacheInitial sp) (take k addrs) = Inr st"
  proof (cases "cacheLoop ob ib (cacheInitial sp) (take k addrs)")
    case (Inl e)
    with c show ?thesis by simp
  next
    case (Inr st)
    then show ?thesis by (rule that)
  qed
  from cacheLoop_unique [OF st cacheInitial_unique] st show ?thesis by blast
qed

theorem cache_tags_stay_unique_witness:
  "\<exists>st. cacheLoop 4 1 (cacheInitial \<lparr> cs_addrBits = 32, cs_cacheSize = 64, cs_blockSize = 16,
              cs_assoc = 2, cs_numBlocks = 4, cs_numSets = 2, cs_offsetBits = 4,
              cs_indexBits = 1, cs_tagBits = 27 \<rparr>) (take 4 [0, 64, 4, 128, 64, 0])
          = Inr st \<and> cacheUnique (sets st)"
proof -
  let ?sp = "\<lparr> cs_addrBits = 32, cs_cacheSize = 64, cs_blockSize = 16,
              cs_assoc = 2, cs_numBlocks = 4, cs_numSets = 2, cs_offsetBits = 4,
              cs_indexBits = 1, cs_tagBits = 27 \<rparr>"
  have "\<not> isl (cacheLoop 4 1 (cacheInitial ?sp) [0, 64, 4, 128, 64, 0])"
    by code_simp
  then obtain fin where "cacheLoop 4 1 (cacheInitial ?sp) [0, 64, 4, 128, 64, 0] = Inr fin"
    by (cases "cacheLoop 4 1 (cacheInitial ?sp) [0, 64, 4, 128, 64, 0]") simp_all
  from cache_tags_stay_unique [OF this, of 4] show ?thesis .
qed

section \<open>Malformed address literals\<close>

text \<open>
  The stripping is done in the order of the source: the input is trimmed and lowered,
  underscores and white space are removed, and only then is one leading \<^verbatim>\<open>0x\<close> dropped. An
  underscore inside the prefix is therefore harmless.
\<close>

lemma underscore_inside_prefix: "parseHexToBigInt ''0_x12'' = Inr 18"
  by code_simp

lemma hd_dropWhile_not: "dropWhile P xs \<noteq> [] \<Longrightarrow> \<not> P (hd (dropWhile P xs))"
  by (induction xs) auto

lemma last_dropWhile: "dropWhile P xs \<noteq> [] \<Longrightarrow> last (dropWhile P xs) = last xs"
  by (induction xs) (auto split: if_splits)

lemma trim_ends:
  assumes "trim s \<noteq> []"
  shows "\<not> isWhiteSpace (hd (trim s)) \<and> \<not> isWhiteSpace (last (trim s))"
proof -
  let ?u = "dropWhile isWhiteSpace s"
  let ?w = "dropWhile isWhiteSpace (rev ?u)"
  from assms have w: "?w \<noteq> []" by (simp add: trim_def)
  then have u: "?u \<noteq> []" by (cases ?u) simp_all
  have "last (trim s) = hd ?w" using w by (simp add: trim_def last_rev)
  moreover have "\<not> isWhiteSpace (hd ?w)" using w by (rule hd_dropWhile_not)
  moreover have "hd (trim s) = last ?w" using w by (simp add: trim_def hd_rev)
  moreover have "last ?w = last (rev ?u)" using w by (rule last_dropWhile)
  moreover have "last (rev ?u) = hd ?u" using u by (simp add: last_rev)
  moreover have "\<not> isWhiteSpace (hd ?u)" using u by (rule hd_dropWhile_not)
  ultimately show ?thesis by simp
qed

lemma dropWhile_hd_id: "xs \<noteq> [] \<Longrightarrow> \<not> P (hd xs) \<Longrightarrow> dropWhile P xs = xs"
  by (cases xs) simp_all

lemma trim_fixed:
  assumes "r \<noteq> []" "\<not> isWhiteSpace (hd r)" "\<not> isWhiteSpace (last r)"
  shows "trim r = r"
proof -
  have "dropWhile isWhiteSpace r = r" using assms(1,2) by (rule dropWhile_hd_id)
  moreover have "dropWhile isWhiteSpace (rev r) = rev r"
    using assms(1,3) by (intro dropWhile_hd_id) (simp_all add: hd_rev)
  ultimately show ?thesis by (simp add: trim_def)
qed

lemma addrLines_trimmed:
  assumes "tok \<in> set (addrLines text)"
  shows "tok \<noteq> [] \<and> trim tok = tok"
proof -
  from assms obtain l where l: "tok = trim l" "trim l \<noteq> []"
    by (auto simp: addrLines_def)
  from trim_ends[OF l(2)] l show ?thesis by (simp add: trim_fixed)
qed

lemma parseHex_error_names_token:
  assumes "tok \<in> set (addrLines text)" "parseHexToBigInt tok = Inl e"
  shows "e = InvalidHexAddress tok"
  using assms(2) addrLines_trimmed[OF assms(1)]
  by (auto simp: parseHexToBigInt_def Let_def split: if_splits)

lemma malformed_rejected:
  assumes "malformedLiteral t"
  shows "isl (parseHexToBigInt t)"
proof -
  from assms have "\<not> list_all isHexDigit (strippedHex t)"
    by (auto simp: malformedLiteral_def list_ex_iff list_all_iff)
  then show ?thesis by (simp add: parseHexToBigInt_def Let_def)
qed

lemma parseAll_first_error:
  assumes "t \<in> set ls" "isl (parseHexToBigInt t)"
  shows "\<exists>pre tok post e. ls = pre @ tok # post
           \<and> list_all (\<lambda>l. \<not> isl (parseHexToBigInt l)) pre
           \<and> parseHexToBigInt tok = Inl e \<and> parseAll ls = Inl e"
  using assms(1)
proof (induction ls)
  case Nil
  then show ?case by simp
next
  case (Cons l ls)
  show ?case
  proof (cases "parseHexToBigInt l")
    case (Inl e)
    then have "l # ls = [] @ l # ls \<and> list_all (\<lambda>l. \<not> isl (parseHexToBigInt l)) []
               \<and> parseHexToBigInt l = Inl e \<and> parseAll (l # ls) = Inl e"
      by simp
    then show ?thesis by blast
  next
    case (Inr a)
    with Cons.prems assms(2) have "t \<in> set ls" by auto
    from Cons.IH[OF this] obtain pre tok post e where
      p: "ls = pre @ tok # post" "list_all (\<lambda>l. \<not> isl (parseHexToBigInt l)) pre"
         "parseHexToBigInt tok = Inl e" "parseAll ls = Inl e"
      by blast
    from p Inr have "l # ls = (l # pre) @ tok # post
               \<and> list_all (\<lambda>l. \<not> isl (parseHexToBigInt l)) (l # pre)
               \<and> parseHexToBigInt tok = Inl e \<and> parseAll (l # ls) = Inl e"
      by simp
    then show ?thesis by blast
  qed
qed

lemma malformed_first_error:
  assumes "t \<in> set (addrLines text)" "malformedLiteral t"
  shows "\<exists>pre tok post. addrLines text = pre @ tok # post
           \<and> list_all (\<lambda>l. \<not> isl (parseHexToBigInt l)) pre
           \<and> parseHexToBigInt tok = Inl (InvalidHexAddress tok)
           \<and> parseAll (addrLines text) = Inl (InvalidHexAddress tok)"
proof -
  from parseAll_first_error[OF assms(1) malformed_rejected[OF assms(2)]]
  obtain pre tok post e where
    p: "addrLines text = pre @ tok # post" "list_all (\<lambda>l. \<not> isl (parseHexToBigInt l)) pre"
       "parseHexToBigInt tok = Inl e" "parseAll (addrLines text) = Inl e"
    by blast
  from p(1) have "tok \<in> set (addrLines text)" by simp
  from parseHex_error_names_token[OF this p(3)] p show ?thesis by blast
qed

lemma vmCompute_malformed:
  assumes "t \<in> set (addrLines (vi_addresses s))" "malformedLiteral t"
  shows "(\<exists>e. vmCompute s = Inl e)
       \<and> (\<not> isl (vmConfig s) \<longrightarrow>
            (\<exists>pre tok post. addrLines (vi_addresses s) = pre @ tok # post
               \<and> list_all (\<lambda>l. \<not> isl (parseHexToBigInt l)) pre
               \<and> parseHexToBigInt tok = Inl (InvalidHexAddress tok)
               \<and> vmCompute s = Inl (InvalidHexAddress tok)))"
proof (cases "vmConfig s")
  case (Inl e)
  then show ?thesis by (simp add: vmCompute_def)
next
  case (Inr sp)
  from malformed_first_error[OF assms] obtain pre tok post where
    p: "addrLines (vi_addresses s) = pre @ tok # post"
       "list_all (\<lambda>l. \<not> isl (parseHexToBigInt l)) pre"
       "parseHexToBigInt tok = Inl (InvalidHexAddress tok)"
       "parseAll (addrLines (vi_addresses s)) = Inl (InvalidHexAddress tok)"
    by blast
  from p(1) have ne: "addrLines (vi_addresses s) \<noteq> []" by simp
  from Inr ne p(4) have "vmCompute s = Inl (InvalidHexAddress tok)"
    by (simp add: vmCompute_def)
  with p show ?thesis by blast
qed

lemma cacheCompute_malformed:
  assumes "t \<in> set (addrLines (ci_addresses s))" "malformedLiteral t"
  shows "(\<exists>e. cacheCompute s = Inl e)
       \<and> (\<not> isl (cacheConfig s) \<longrightarrow>
            (\<exists>pre tok post. addrLines (ci_addresses s) = pre @ tok # post
               \<and> list_all (\<lambda>l. \<not> isl (parseHexToBigInt l)) pre
               \<and> parseHexToBigInt tok = Inl (InvalidHexAddress tok)
               \<and> cacheCompute s = Inl (InvalidHexAddress tok)))"
proof (cases "cacheConfig s")
  case (Inl e)
  then show ?thesis by (simp add: cacheCompute_def)
next
  case (Inr sp)
  from malformed_first_error[OF assms] obtain pre tok post where
    p: "addrLines (ci_addresses s) = pre @ tok # post"
       "list_all (\<lambda>l. \<not> isl (parseHexToBigInt l)) pre"
       "parseHexToBigInt tok = Inl (InvalidHexAddress tok)"
       "parseAll (addrLines (ci_addresses s)) = Inl (InvalidHexAddress tok)"
    by blast
  from Inr p(4) have "cacheCompute s = Inl (InvalidHexAddress tok)"
    by (simp add: cacheCompute_def parseAddresses_def)
  with p show ?thesis by blast
qed

text \<open>
  Claim C8. When the address list holds a malformed literal, the run aborts: both
  \<^verbatim>\<open>compute\<close> functions return an error and neither trace nor statistics. When the
  configuration checks that come before the parsing of the addresses pass, the error is
  \<^verbatim>\<open>Invalid hex address\<close> and carries the raw text of the first line that
  \<^verbatim>\<open>parseHexToBigInt\<close> refuses.
\<close>

theorem malformed_address_aborts:
  assumes "malformedLiteral t"
  shows "(t \<in> set (addrLines (vi_addresses v)) \<longrightarrow>
            (\<exists>e. vmCompute v = Inl e)
          \<and> (\<not> isl (vmConfig v) \<longrightarrow>
               (\<exists>pre tok post. addrLines (vi_addresses v) = pre @ tok # post
                  \<and> list_all (\<lambda>l. \<not> isl (parseHexToBigInt l)) pre
                  \<and> parseHexToBigInt tok = Inl (InvalidHexAddress tok)
                  \<and> vmCompute v = Inl (InvalidHexAddress tok))))
       \<and> (t \<in> set (addrLines (ci_addresses c)) \<longrightarrow>
            (\<exists>e. cacheCompute c = Inl e)
          \<and> (\<not> isl (cacheConfig c) \<longrightarrow>
               (\<exists>pre tok post. addrLines (ci_addresses c) = pre @ tok # post
                  \<and> list_all (\<lambda>l. \<not> isl (parseHexToBigInt l)) pre
                  \<and> parseHexToBigInt tok = Inl (InvalidHexAddress tok)
                  \<and> cacheCompute c = Inl (InvalidHexAddress tok))))"
  using vmCompute_malformed [of t v, OF _ assms] cacheCompute_malformed [of t c, OF _ assms]
  by blast

theorem malformed_address_aborts_witness:
  "malformedLiteral ''0xZZ''
   \<and> ''0xZZ'' \<in> set (addrLines (''0x1000'' @ [CHR 0x0A] @ '' 0xZZ'' @ [CHR 0x0A] @ ''12g''))
   \<and> \<not> isl (vmConfig \<lparr> vi_vaBits = ''32'', vi_paBits = ''32'', vi_pageSize = ''4096'',
          vi_addresses = ''0x1000'' @ [CHR 0x0A] @ '' 0xZZ'' @ [CHR 0x0A] @ ''12g'',
          vi_mappings = ''0x1 0xA RWX'', vi_ptInitRows = [], vi_enableTLB = True,
          vi_tlbEntries = ''16'', vi_tlbAssoc = ''4'', vi_tlbInitRows = [] \<rparr>)
   \<and> (\<exists>e. vmCompute \<lparr> vi_vaBits = ''32'', vi_paBits = ''32'', vi_pageSize = ''4096'',
          vi_addresses = ''0x1000'' @ [CHR 0x0A] @ '' 0xZZ'' @ [CHR 0x0A] @ ''12g'',
          vi_mappings = ''0x1 0xA RWX'', vi_ptInitRows = [], vi_enableTLB = True,
          vi_tlbEntries = ''16'', vi_tlbAssoc = ''4'', vi_tlbInitRows = [] \<rparr> = Inl e)
   \<and> vmCompute \<lparr> vi_vaBits = ''32'', vi_paBits = ''32'', vi_pageSize = ''4096'',
          vi_addresses = ''0x1000'' @ [CHR 0x0A] @ '' 0xZZ'' @ [CHR 0x0A] @ ''12g'',
          vi_mappings = ''0x1 0xA RWX'', vi_ptInitRows = [], vi_enableTLB = True,
          vi_tlbEntries = ''16'', vi_tlbAssoc = ''4'', vi_tlbInitRows = [] \<rparr>
       = Inl (InvalidHexAddress ''0xZZ'')
   \<and> cacheCompute \<lparr> ci_addrBits = ''32'', ci_cacheSize = ''1024'', ci_blockSize = ''16'',
          ci_assoc = ''1'',
          ci_addresses = ''0x1000'' @ [CHR 0x0A] @ '' 0xZZ'' @ [CHR 0x0A] @ ''12g'' \<rparr>
       = Inl (InvalidHexAddress ''0xZZ'')"
proof -
  let ?text = "''0x1000'' @ [CHR 0x0A] @ '' 0xZZ'' @ [CHR 0x0A] @ ''12g''"
  let ?v = "\<lparr> vi_vaBits = ''32'', vi_paBits = ''32'', vi_pageSize = ''4096'',
          vi_addresses = ?text,
          vi_mappings = ''0x1 0xA RWX'', vi_ptInitRows = [], vi_enableTLB = True,
          vi_tlbEntries = ''16'', vi_tlbAssoc = ''4'', vi_tlbInitRows = [] \<rparr>"
  let ?c = "\<lparr> ci_addrBits = ''32'', ci_cacheSize = ''1024'', ci_blockSize = ''16'',
          ci_assoc = ''1'', ci_addresses = ?text \<rparr>"
  have m: "malformedLiteral ''0xZZ''" by code_simp
  have al: "addrLines ?text = [''0x1000'', ''0xZZ'', ''12g'']" by code_simp
  then have i: "''0xZZ'' \<in> set (addrLines ?text)" by simp
  have cfg: "\<not> isl (vmConfig ?v)" by code_simp
  have iv: "''0xZZ'' \<in> set (addrLines (vi_addresses ?v))" using i by simp
  have ic: "''0xZZ'' \<in> set (addrLines (ci_addresses ?c))" using i by simp
  from malformed_address_aborts [OF m, of ?v ?c] iv
  have ab: "\<exists>e. vmCompute ?v = Inl e" by blast
  have v: "vmCompute ?v = Inl (InvalidHexAddress ''0xZZ'')" by code_simp
  have c: "cacheCompute ?c = Inl (InvalidHexAddress ''0xZZ'')" by code_simp
  from m i cfg ab v c show ?thesis by blast
qed

section \<open>The virtual-memory simulation\<close>

lemma vmRecord_fields:
  "va_addr (vmRecord p a vpn off t i tg ppO fl) = a"
  "va_vpn (vmRecord p a vpn off t i tg ppO fl) = vpn"
  "va_offset (vmRecord p a vpn off t i tg ppO fl) = off"
  "va_ppn (vmRecord p a vpn off t i tg ppO fl) = ppO"
  "va_pa (vmRecord p a vpn off t i tg ppO fl) = map_option (\<lambda>pp. physAddr p pp off) ppO"
  "va_paStr (vmRecord p a vpn off t i tg ppO fl)
     = map_option (\<lambda>pp. toHex (physAddr p pp off) (paNibbles (vp_paBits p))) ppO"
  by (simp_all add: vmRecord_def)

lemma vmStep_cases:
  assumes "vmStep p st a = Inr st'"
  obtains
    (disabled_fault) "\<not> vp_enableTLB p" "pageTable st (vmVpn p a) = None"
      "st' = st \<lparr> vtime := vtime st + 1, ptMisses := ptMisses st + 1,
                  vtrace := vtrace st @ [vmRecord p a (vmVpn p a) (vmOffset p a) None 0 0 None []] \<rparr>"
  | (disabled_hit) entry where "\<not> vp_enableTLB p" "pageTable st (vmVpn p a) = Some entry"
      "st' = st \<lparr> vtime := vtime st + 1, ptHits := ptHits st + 1,
                  vtrace := vtrace st @ [vmRecord p a (vmVpn p a) (vmOffset p a) None 0 0
                                           (Some (pte_ppn entry)) (pte_flags entry)] \<rparr>"
  | (tlb_hit) w where "vp_enableTLB p"
      "nat (tlbIndex p (vmVpn p a)) < length (tlbSets st)"
      "hitWay (tlbSets st ! nat (tlbIndex p (vmVpn p a))) (tlbTagOf p (vmVpn p a)) = Some w"
      "st' = st \<lparr> tlbSets := (tlbSets st)[nat (tlbIndex p (vmVpn p a)) :=
                      (tlbSets st ! nat (tlbIndex p (vmVpn p a)))
                        [w := (tlbSets st ! nat (tlbIndex p (vmVpn p a)) ! w)
                                \<lparr> lastUsed := vtime st + 1 \<rparr>]],
                  vtime := vtime st + 1, tlbHits := tlbHits st + 1,
                  vtrace := vtrace st @
                    [vmRecord p a (vmVpn p a) (vmOffset p a) (Some HIT)
                       (nat (tlbIndex p (vmVpn p a))) (tlbTagOf p (vmVpn p a))
                       (Some (ppn (tlbSets st ! nat (tlbIndex p (vmVpn p a)) ! w)))
                       (flags (tlbSets st ! nat (tlbIndex p (vmVpn p a)) ! w))] \<rparr>"
  | (tlb_fault) "vp_enableTLB p"
      "nat (tlbIndex p (vmVpn p a)) < length (tlbSets st)"
      "hitWay (tlbSets st ! nat (tlbIndex p (vmVpn p a))) (tlbTagOf p (vmVpn p a)) = None"
      "pageTable st (vmVpn p a) = None"
      "st' = st \<lparr> vtime := vtime st + 1, tlbMisses := tlbMisses st + 1,
                  ptMisses := ptMisses st + 1,
                  vtrace := vtrace st @
                    [vmRecord p a (vmVpn p a) (vmOffset p a) (Some MISS)
                       (nat (tlbIndex p (vmVpn p a))) (tlbTagOf p (vmVpn p a)) None []] \<rparr>"
  | (tlb_fill) entry where "vp_enableTLB p"
      "nat (tlbIndex p (vmVpn p a)) < length (tlbSets st)"
      "hitWay (tlbSets st ! nat (tlbIndex p (vmVpn p a))) (tlbTagOf p (vmVpn p a)) = None"
      "pageTable st (vmVpn p a) = Some entry"
      "pickVictimLRU (tlbSets st ! nat (tlbIndex p (vmVpn p a)))
         < length (tlbSets st ! nat (tlbIndex p (vmVpn p a)))"
      "st' = st \<lparr> tlbSets := (tlbSets st)[nat (tlbIndex p (vmVpn p a)) :=
                      (tlbSets st ! nat (tlbIndex p (vmVpn p a)))
                        [pickVictimLRU (tlbSets st ! nat (tlbIndex p (vmVpn p a))) :=
                           (tlbSets st ! nat (tlbIndex p (vmVpn p a))
                              ! pickVictimLRU (tlbSets st ! nat (tlbIndex p (vmVpn p a))))
                             \<lparr> valid := True, tag := tlbTagOf p (vmVpn p a),
                                lastUsed := vtime st + 1,
                                ppn := pte_ppn entry, flags := pte_flags entry \<rparr>]],
                  vtime := vtime st + 1, tlbMisses := tlbMisses st + 1,
                  ptHits := ptHits st + 1,
                  vtrace := vtrace st @
                    [vmRecord p a (vmVpn p a) (vmOffset p a) (Some MISS)
                       (nat (tlbIndex p (vmVpn p a))) (tlbTagOf p (vmVpn p a))
                       (Some (pte_ppn entry)) (pte_flags entry)] \<rparr>"
proof (cases "vp_enableTLB p")
  case False
  show ?thesis
  proof (cases "pageTable st (vmVpn p a)")
    case None
    with False assms show ?thesis
      by (intro disabled_fault) (simp_all add: vmStep_def Let_def)
  next
    case (Some entry)
    with False assms show ?thesis
      by (intro disabled_hit[of entry]) (simp_all add: vmStep_def Let_def)
  qed
next
  case True
  let ?i = "nat (tlbIndex p (vmVpn p a))"
  from True assms have i: "?i < length (tlbSets st)"
    by (simp add: vmStep_def Let_def split: if_splits)
  from True assms have nn: "\<not> tlbIndex p (vmVpn p a) < 0"
    by (simp add: vmStep_def Let_def split: if_splits)
  show ?thesis
  proof (cases "hitWay (tlbSets st ! ?i) (tlbTagOf p (vmVpn p a))")
    case (Some w)
    with True i nn assms show ?thesis
      by (intro tlb_hit[of w]) (simp_all add: vmStep_def Let_def)
  next
    case None
    show ?thesis
    proof (cases "pageTable st (vmVpn p a)")
      case pn: None
      with None True i nn assms show ?thesis
        by (intro tlb_fault) (simp_all add: vmStep_def Let_def)
    next
      case (Some entry)
      with None True i nn assms
      have v: "pickVictimLRU (tlbSets st ! ?i) < length (tlbSets st ! ?i)"
        by (simp add: vmStep_def Let_def split: if_splits)
      with Some None True i nn assms show ?thesis
        by (intro tlb_fill[of entry]) (simp_all add: vmStep_def Let_def)
    qed
  qed
qed

lemma vmStep_pageTable: "vmStep p st a = Inr st' \<Longrightarrow> pageTable st' = pageTable st"
  by (erule vmStep_cases) simp_all

lemma vmStep_trace:
  assumes "vmStep p st a = Inr st'"
  shows "\<exists>r. vtrace st' = vtrace st @ [r]
           \<and> va_addr r = a \<and> va_vpn r = vmVpn p a \<and> va_offset r = vmOffset p a
           \<and> va_pa r = map_option (\<lambda>pp. physAddr p pp (vmOffset p a)) (va_ppn r)
           \<and> va_paStr r = map_option (\<lambda>pp. toHex (physAddr p pp (vmOffset p a))
                                              (paNibbles (vp_paBits p))) (va_ppn r)"
  using assms by (rule vmStep_cases) (simp_all add: vmRecord_fields)


lemma vmLoop_pageTable: "vmLoop p st as = Inr st' \<Longrightarrow> pageTable st' = pageTable st"
proof (induction as arbitrary: st)
  case Nil
  then show ?case by simp
next
  case (Cons a as)
  from Cons.prems obtain st1 where s: "vmStep p st a = Inr st1" and l: "vmLoop p st1 as = Inr st'"
    by (auto split: sum.splits)
  from Cons.IH[OF l] vmStep_pageTable[OF s] show ?case by simp
qed

lemma vmLoop_trace:
  "vmLoop p st as = Inr st' \<Longrightarrow>
     \<exists>rs. vtrace st' = vtrace st @ rs \<and> length rs = length as
        \<and> list_all (\<lambda>r. va_vpn r = vmVpn p (va_addr r) \<and> va_offset r = vmOffset p (va_addr r)
                        \<and> va_pa r = map_option (\<lambda>pp. physAddr p pp (va_offset r)) (va_ppn r)) rs"
proof (induction as arbitrary: st)
  case Nil
  then show ?case by simp
next
  case (Cons a as)
  from Cons.prems obtain st1 where s: "vmStep p st a = Inr st1" and l: "vmLoop p st1 as = Inr st'"
    by (auto split: sum.splits)
  from vmStep_trace[OF s] obtain r where r: "vtrace st1 = vtrace st @ [r]"
    "va_addr r = a" "va_vpn r = vmVpn p a" "va_offset r = vmOffset p a"
    "va_pa r = map_option (\<lambda>pp. physAddr p pp (vmOffset p a)) (va_ppn r)"
    by blast
  from Cons.IH[OF l] obtain rs where rs: "vtrace st' = vtrace st1 @ rs" "length rs = length as"
    "list_all (\<lambda>r. va_vpn r = vmVpn p (va_addr r) \<and> va_offset r = vmOffset p (va_addr r)
                        \<and> va_pa r = map_option (\<lambda>pp. physAddr p pp (va_offset r)) (va_ppn r)) rs"
    by blast
  from r rs have "vtrace st' = vtrace st @ (r # rs) \<and> length (r # rs) = length (a # as)
     \<and> list_all (\<lambda>r. va_vpn r = vmVpn p (va_addr r) \<and> va_offset r = vmOffset p (va_addr r)
                        \<and> va_pa r = map_option (\<lambda>pp. physAddr p pp (va_offset r)) (va_ppn r)) (r # rs)"
    by simp
  then show ?case by blast
qed

lemma vmCompute_run:
  assumes "vmCompute s = Inr out"
  obtains sp parsed pt ib ts fin where
    "vmConfig s = Inr sp" "parseAll (addrLines (vi_addresses s)) = Inr parsed"
    "vmPageTable s = Inr pt" "vmTlb s (vs_vpnBits sp) = Inr (ib, ts)"
    "vmLoop \<lparr> vp_offsetBits = vs_offsetBits sp, vp_paBits = vs_paBits sp,
              vp_enableTLB = vi_enableTLB s, vp_tlbIndexBits = ib \<rparr>
            \<lparr> tlbSets = ts, pageTable = pt, vtime = 0, tlbHits = 0, tlbMisses = 0,
              ptHits = 0, ptMisses = 0, vtrace = [] \<rparr>
            (map (\<lambda>a. clampBigIntToBits a (vs_vaBits sp)) parsed) = Inr fin"
    "out = \<lparr> vo_split = sp, vo_accesses = vtrace fin, vo_tlbHits = tlbHits fin,
             vo_tlbMisses = tlbMisses fin, vo_ptHits = ptHits fin,
             vo_ptMisses = ptMisses fin, vo_tlbSets = tlbSets fin \<rparr>"
  using assms
  by (auto simp: vmCompute_def Let_def split: sum.splits if_splits prod.splits)

lemma vmCompute_records:
  assumes "vmCompute s = Inr out" "r \<in> set (vo_accesses out)"
  shows "va_vpn r = drop_bit (nat (vs_offsetBits (vo_split out))) (va_addr r)
       \<and> va_offset r = va_addr r AND maskBits (vs_offsetBits (vo_split out))
       \<and> va_pa r = map_option
            (\<lambda>pp. clampBigIntToBits (push_bit (nat (vs_offsetBits (vo_split out))) pp OR va_offset r)
                     (vs_paBits (vo_split out))) (va_ppn r)"
proof -
  from assms(1) obtain sp parsed pt ib ts fin where
    l: "vmLoop \<lparr> vp_offsetBits = vs_offsetBits sp, vp_paBits = vs_paBits sp,
              vp_enableTLB = vi_enableTLB s, vp_tlbIndexBits = ib \<rparr>
            \<lparr> tlbSets = ts, pageTable = pt, vtime = 0, tlbHits = 0, tlbMisses = 0,
              ptHits = 0, ptMisses = 0, vtrace = [] \<rparr>
            (map (\<lambda>a. clampBigIntToBits a (vs_vaBits sp)) parsed) = Inr fin"
    and out: "out = \<lparr> vo_split = sp, vo_accesses = vtrace fin, vo_tlbHits = tlbHits fin,
             vo_tlbMisses = tlbMisses fin, vo_ptHits = ptHits fin,
             vo_ptMisses = ptMisses fin, vo_tlbSets = tlbSets fin \<rparr>"
    by (rule vmCompute_run)
  from vmLoop_trace[OF l] assms(2) out show ?thesis
    by (auto simp: list_all_iff vmVpn_def vmOffset_def physAddr_def)
qed


lemma vmStep_fault_frame:
  assumes "vmStep p st a = Inr st'" "pageTable st (vmVpn p a) = None"
    and "\<not> vp_enableTLB p
         \<or> hitWay (tlbSets st ! nat (tlbIndex p (vmVpn p a))) (tlbTagOf p (vmVpn p a)) = None"
  shows "tlbSets st' = tlbSets st \<and> pageTable st' = pageTable st
       \<and> ptMisses st' = ptMisses st + 1 \<and> ptHits st' = ptHits st
       \<and> tlbHits st' = tlbHits st
       \<and> (\<exists>r. vtrace st' = vtrace st @ [r] \<and> va_addr r = a \<and> va_vpn r = vmVpn p a
              \<and> va_ppn r = None \<and> va_pa r = None \<and> va_paStr r = None)
       \<and> vmLoop p st (a # rest) = vmLoop p st' rest"
  using assms(1)
proof (cases rule: vmStep_cases)
  case disabled_fault
  with assms(1) show ?thesis by (simp add: vmRecord_fields)
next
  case (disabled_hit entry)
  with assms(2) show ?thesis by simp
next
  case (tlb_hit w)
  with assms(3) show ?thesis by simp
next
  case tlb_fault
  with assms(1) show ?thesis by (simp add: vmRecord_fields)
next
  case (tlb_fill entry)
  with assms(2) show ?thesis by simp
qed

lemma tlbVpn_inverse: "tlbVpn p (tlbTagOf p v) (nat (tlbIndex p v)) = v"
proof (cases "vp_tlbIndexBits p \<le> 0")
  case True
  then have "nat (vp_tlbIndexBits p) = 0" "tlbIndex p v = 0"
    by (simp_all add: tlbIndex_def maskBits_def)
  then show ?thesis by (simp add: tlbVpn_def tlbTagOf_def)
next
  case False
  let ?n = "nat (vp_tlbIndexBits p)"
  from False have i: "tlbIndex p v = take_bit ?n v"
    by (simp add: tlbIndex_def and_maskBits)
  have "push_bit ?n (drop_bit ?n v) OR take_bit ?n v = v"
  proof (rule bit_eqI)
    fix k
    show "bit (push_bit ?n (drop_bit ?n v) OR take_bit ?n v) k = bit v k"
    proof (cases "k < ?n")
      case True
      then show ?thesis
        by (simp add: bit_or_iff bit_push_bit_iff bit_drop_bit_eq bit_take_bit_iff)
    next
      case False
      then have "?n + (k - ?n) = k" by simp
      with False show ?thesis
        by (simp add: bit_or_iff bit_push_bit_iff bit_drop_bit_eq bit_take_bit_iff)
    qed
  qed
  then show ?thesis by (simp add: tlbVpn_def tlbTagOf_def i)
qed

lemma tlbBacked_iff:
  "tlbBacked p pt ss \<longleftrightarrow>
     (\<forall>i<length ss. \<forall>t\<in>set (map tag (filter valid (ss ! i))). pt (tlbVpn p t i) \<noteq> None)"
  by (auto simp: tlbBacked_def list_all_iff)

lemma hitWay_Some_tag:
  "hitWay ls t = Some w \<Longrightarrow> t \<in> set (map tag (filter valid ls))"
proof -
  assume "hitWay ls t = Some w"
  then have "w < length ls" "valid (ls ! w)" "tag (ls ! w) = t"
    by (auto simp: hitWay_def dest: findIndex_Some)
  then have "ls ! w \<in> set (filter valid ls)" by simp
  with \<open>tag (ls ! w) = t\<close> show ?thesis by force
qed

lemma backed_no_hit:
  assumes "tlbBacked p pt ss" "i < length ss" "pt v = None"
    and "i = nat (tlbIndex p v)"
  shows "hitWay (ss ! i) (tlbTagOf p v) = None"
proof (cases "hitWay (ss ! i) (tlbTagOf p v)")
  case None
  then show ?thesis .
next
  case (Some w)
  from assms(1,2) have "\<forall>t\<in>set (map tag (filter valid (ss ! i))). pt (tlbVpn p t i) \<noteq> None"
    unfolding tlbBacked_iff by blast
  with hitWay_Some_tag[OF Some]
  have "pt (tlbVpn p (tlbTagOf p v) i) \<noteq> None" by blast
  with assms(3,4) show ?thesis by (simp add: tlbVpn_inverse)
qed

lemma tlbBacked_update:
  assumes "tlbBacked p pt ss" "i < length ss"
    and "\<forall>t\<in>set (map tag (filter valid ls')). pt (tlbVpn p t i) \<noteq> None"
  shows "tlbBacked p pt (ss[i := ls'])"
  unfolding tlbBacked_iff
proof (intro allI impI)
  fix j assume j: "j < length (ss[i := ls'])"
  show "\<forall>t\<in>set (map tag (filter valid (ss[i := ls'] ! j))). pt (tlbVpn p t j) \<noteq> None"
  proof (cases "j = i")
    case True
    with assms(2,3) show ?thesis by simp
  next
    case False
    with j have "ss[i := ls'] ! j = ss ! j" "j < length ss" by simp_all
    with assms(1) show ?thesis unfolding tlbBacked_iff by simp
  qed
qed

lemma vmStep_backed:
  assumes "vmStep p st a = Inr st'" "tlbBacked p (pageTable st) (tlbSets st)"
  shows "tlbBacked p (pageTable st') (tlbSets st')"
  using assms(1)
proof (cases rule: vmStep_cases)
  case disabled_fault
  with assms(2) show ?thesis by simp
next
  case (disabled_hit entry)
  with assms(2) show ?thesis by simp
next
  case (tlb_hit w)
  let ?i = "nat (tlbIndex p (vmVpn p a))"
  let ?ls = "tlbSets st ! ?i"
  have "\<forall>t\<in>set (map tag (filter valid (?ls[w := (?ls ! w)\<lparr> lastUsed := vtime st + 1 \<rparr>]))).
          pageTable st (tlbVpn p t ?i) \<noteq> None"
    using assms(2) tlb_hit(2) unfolding touch_tags tlbBacked_iff by blast
  from tlbBacked_update[OF assms(2) tlb_hit(2) this] tlb_hit(4) show ?thesis by simp
next
  case tlb_fault
  with assms(2) show ?thesis by simp
next
  case (tlb_fill entry)
  let ?i = "nat (tlbIndex p (vmVpn p a))"
  let ?ls = "tlbSets st ! ?i"
  let ?new = "(?ls ! pickVictimLRU ?ls)\<lparr> valid := True, tag := tlbTagOf p (vmVpn p a),
                  lastUsed := vtime st + 1, ppn := pte_ppn entry, flags := pte_flags entry \<rparr>"
  have sub: "set (map tag (filter valid (?ls[pickVictimLRU ?ls := ?new])))
               \<subseteq> insert (tag ?new) (set (map tag (filter valid ?ls)))"
    by (rule fill_tags_subset) simp
  have new: "pageTable st (tlbVpn p (tag ?new) ?i) \<noteq> None"
    using tlb_fill(4) by (simp add: tlbVpn_inverse)
  have old: "\<forall>t\<in>set (map tag (filter valid ?ls)). pageTable st (tlbVpn p t ?i) \<noteq> None"
    using assms(2) tlb_fill(2) unfolding tlbBacked_iff by blast
  have "\<forall>t\<in>set (map tag (filter valid (?ls[pickVictimLRU ?ls := ?new]))).
          pageTable st (tlbVpn p t ?i) \<noteq> None"
    using sub new old by blast
  from tlbBacked_update[OF assms(2) tlb_fill(2) this] tlb_fill(6) show ?thesis by simp
qed

lemma vmStep_backed_fault:
  assumes "vmStep p st a = Inr st'" "tlbBacked p (pageTable st) (tlbSets st)"
    and "pageTable st (vmVpn p a) = None"
  shows "\<not> vp_enableTLB p
         \<or> hitWay (tlbSets st ! nat (tlbIndex p (vmVpn p a))) (tlbTagOf p (vmVpn p a)) = None"
  using assms(1)
proof (cases rule: vmStep_cases)
  case (tlb_hit w)
  from backed_no_hit[OF assms(2) tlb_hit(2) assms(3) refl] show ?thesis by simp
qed simp_all


lemma vmStep_counts:
  assumes "vmStep p st a = Inr st'"
  shows "\<exists>r. vtrace st' = vtrace st @ [r] \<and> va_vpn r = vmVpn p a
           \<and> ptMisses st' = ptMisses st + (if va_ppn r = None then 1 else 0)
           \<and> (va_ppn r \<noteq> None \<or> (va_pa r = None \<and> va_paStr r = None))"
  using assms by (rule vmStep_cases) (simp_all add: vmRecord_fields)

lemma vmStep_backed_record:
  assumes "vmStep p st a = Inr st'" "tlbBacked p (pageTable st) (tlbSets st)"
  shows "\<exists>r. vtrace st' = vtrace st @ [r]
           \<and> (pageTable st (va_vpn r) \<noteq> None \<or> va_ppn r = None)"
proof (cases "pageTable st (vmVpn p a)")
  case None
  from vmStep_fault_frame[OF assms(1) None vmStep_backed_fault[OF assms None]]
  show ?thesis by blast
next
  case (Some entry)
  from vmStep_counts[OF assms(1)] obtain r where "vtrace st' = vtrace st @ [r]"
    "va_vpn r = vmVpn p a" by blast
  with Some show ?thesis by simp
qed

lemma vmLoop_counts:
  "vmLoop p st as = Inr st' \<Longrightarrow>
     \<exists>rs. vtrace st' = vtrace st @ rs
        \<and> ptMisses st' = ptMisses st + int (length (filter (\<lambda>r. va_ppn r = None) rs))
        \<and> list_all (\<lambda>r. va_ppn r \<noteq> None \<or> (va_pa r = None \<and> va_paStr r = None)) rs"
proof (induction as arbitrary: st)
  case Nil
  then show ?case by simp
next
  case (Cons a as)
  from Cons.prems obtain st1 where s: "vmStep p st a = Inr st1" and l: "vmLoop p st1 as = Inr st'"
    by (auto split: sum.splits)
  from vmStep_counts[OF s] obtain r where r: "vtrace st1 = vtrace st @ [r]"
    "ptMisses st1 = ptMisses st + (if va_ppn r = None then 1 else 0)"
    "va_ppn r \<noteq> None \<or> (va_pa r = None \<and> va_paStr r = None)"
    by blast
  from Cons.IH[OF l] obtain rs where rs: "vtrace st' = vtrace st1 @ rs"
    "ptMisses st' = ptMisses st1 + int (length (filter (\<lambda>r. va_ppn r = None) rs))"
    "list_all (\<lambda>r. va_ppn r \<noteq> None \<or> (va_pa r = None \<and> va_paStr r = None)) rs"
    by blast
  from r rs have "vtrace st' = vtrace st @ (r # rs)
        \<and> ptMisses st' = ptMisses st + int (length (filter (\<lambda>r. va_ppn r = None) (r # rs)))
        \<and> list_all (\<lambda>r. va_ppn r \<noteq> None \<or> (va_pa r = None \<and> va_paStr r = None)) (r # rs)"
    by simp
  then show ?case by blast
qed

lemma vmLoop_backed:
  "vmLoop p st as = Inr st' \<Longrightarrow> tlbBacked p (pageTable st) (tlbSets st) \<Longrightarrow>
     \<exists>rs. vtrace st' = vtrace st @ rs
        \<and> list_all (\<lambda>r. pageTable st (va_vpn r) \<noteq> None \<or> va_ppn r = None) rs"
proof (induction as arbitrary: st)
  case Nil
  then show ?case by simp
next
  case (Cons a as)
  from Cons.prems obtain st1 where s: "vmStep p st a = Inr st1" and l: "vmLoop p st1 as = Inr st'"
    by (auto split: sum.splits)
  from vmStep_backed_record[OF s Cons.prems(2)] obtain r where r: "vtrace st1 = vtrace st @ [r]"
    "pageTable st (va_vpn r) \<noteq> None \<or> va_ppn r = None"
    by blast
  have pt: "pageTable st1 = pageTable st" using s by (rule vmStep_pageTable)
  from vmStep_backed[OF s Cons.prems(2)] have "tlbBacked p (pageTable st1) (tlbSets st1)" .
  from Cons.IH[OF l this] obtain rs where rs: "vtrace st' = vtrace st1 @ rs"
    "list_all (\<lambda>r. pageTable st1 (va_vpn r) \<noteq> None \<or> va_ppn r = None) rs"
    by blast
  from r rs pt have "vtrace st' = vtrace st @ (r # rs)
        \<and> list_all (\<lambda>r. pageTable st (va_vpn r) \<noteq> None \<or> va_ppn r = None) (r # rs)"
    by simp
  then show ?case by blast
qed

lemma initTLB_backed: "tlbBacked p pt (initTLB n m)"
  by (simp add: tlbBacked_iff initTLB_def)

lemma vmTlb_unseeded_backed:
  assumes "vi_tlbInitRows s = []" "vmTlb s n = Inr (ib, ts)"
  shows "tlbBacked p pt ts"
proof (cases "vi_enableTLB s")
  case False
  with assms(2) have "ts = []" by (simp add: vmTlb_def)
  then show ?thesis by (simp add: tlbBacked_def)
next
  case True
  with assms show ?thesis
    by (auto simp: vmTlb_def initTLB_backed split: sum.splits)
qed

lemma vmCompute_unseeded_fault:
  assumes "vi_tlbInitRows s = []" "vmPageTable s = Inr pt" "vmCompute s = Inr out"
    and "r \<in> set (vo_accesses out)" "pt (va_vpn r) = None"
  shows "va_ppn r = None \<and> va_pa r = None \<and> va_paStr r = None"
proof -
  from assms(3) obtain sp parsed pt' ib ts fin where
    pt': "vmPageTable s = Inr pt'" and tlb: "vmTlb s (vs_vpnBits sp) = Inr (ib, ts)" and
    l: "vmLoop \<lparr> vp_offsetBits = vs_offsetBits sp, vp_paBits = vs_paBits sp,
              vp_enableTLB = vi_enableTLB s, vp_tlbIndexBits = ib \<rparr>
            \<lparr> tlbSets = ts, pageTable = pt', vtime = 0, tlbHits = 0, tlbMisses = 0,
              ptHits = 0, ptMisses = 0, vtrace = [] \<rparr>
            (map (\<lambda>a. clampBigIntToBits a (vs_vaBits sp)) parsed) = Inr fin"
    and out: "out = \<lparr> vo_split = sp, vo_accesses = vtrace fin, vo_tlbHits = tlbHits fin,
             vo_tlbMisses = tlbMisses fin, vo_ptHits = ptHits fin,
             vo_ptMisses = ptMisses fin, vo_tlbSets = tlbSets fin \<rparr>"
    by (rule vmCompute_run)
  from pt' assms(2) have e: "pt' = pt" by simp
  let ?p = "\<lparr> vp_offsetBits = vs_offsetBits sp, vp_paBits = vs_paBits sp,
              vp_enableTLB = vi_enableTLB s, vp_tlbIndexBits = ib \<rparr>"
  have b: "tlbBacked ?p pt ts" using assms(1) tlb by (rule vmTlb_unseeded_backed)
  from vmLoop_backed[OF l] b e assms(4,5) out have "va_ppn r = None"
    by (auto simp: list_all_iff)
  moreover from vmLoop_counts[OF l] assms(4) out
  have "va_ppn r \<noteq> None \<or> (va_pa r = None \<and> va_paStr r = None)"
    by (auto simp: list_all_iff)
  ultimately show ?thesis by simp
qed

lemma vmCompute_ptMisses:
  assumes "vmCompute s = Inr out"
  shows "vo_ptMisses out = int (length (filter (\<lambda>r. va_ppn r = None) (vo_accesses out)))
       \<and> length (vo_accesses out) = length (addrLines (vi_addresses s))"
proof -
  from assms obtain sp parsed pt ib ts fin where
    pa: "parseAll (addrLines (vi_addresses s)) = Inr parsed" and
    l: "vmLoop \<lparr> vp_offsetBits = vs_offsetBits sp, vp_paBits = vs_paBits sp,
              vp_enableTLB = vi_enableTLB s, vp_tlbIndexBits = ib \<rparr>
            \<lparr> tlbSets = ts, pageTable = pt, vtime = 0, tlbHits = 0, tlbMisses = 0,
              ptHits = 0, ptMisses = 0, vtrace = [] \<rparr>
            (map (\<lambda>a. clampBigIntToBits a (vs_vaBits sp)) parsed) = Inr fin"
    and out: "out = \<lparr> vo_split = sp, vo_accesses = vtrace fin, vo_tlbHits = tlbHits fin,
             vo_tlbMisses = tlbMisses fin, vo_ptHits = ptHits fin,
             vo_ptMisses = ptMisses fin, vo_tlbSets = tlbSets fin \<rparr>"
    by (rule vmCompute_run)
  from vmLoop_counts[OF l] vmLoop_trace[OF l] out parseAll_length[OF pa] show ?thesis
    by auto
qed


lemma tlbIndex_range:
  assumes "0 \<le> vp_tlbIndexBits p"
  shows "0 \<le> tlbIndex p v \<and> tlbIndex p v < 2 ^ nat (vp_tlbIndexBits p)"
  by (simp add: tlbIndex_def and_maskBits take_bit_int_less_exp)

lemma vmStep_total:
  assumes "vp_enableTLB p \<longrightarrow>
             0 \<le> vp_tlbIndexBits p \<and> length (tlbSets st) = 2 ^ nat (vp_tlbIndexBits p)
             \<and> list_all (\<lambda>ls. ls \<noteq> []) (tlbSets st)"
  shows "\<exists>st'. vmStep p st a = Inr st'
           \<and> length (tlbSets st') = length (tlbSets st)
           \<and> (list_all (\<lambda>ls. ls \<noteq> []) (tlbSets st) \<longrightarrow> list_all (\<lambda>ls. ls \<noteq> []) (tlbSets st'))"
proof (cases "vp_enableTLB p")
  case False
  then show ?thesis
    by (cases "pageTable st (vmVpn p a)") (simp_all add: vmStep_def Let_def)
next
  case True
  let ?idx = "tlbIndex p (vmVpn p a)"
  let ?i = "nat ?idx"
  let ?ls = "tlbSets st ! ?i"
  from True assms have sh: "0 \<le> vp_tlbIndexBits p"
    "length (tlbSets st) = 2 ^ nat (vp_tlbIndexBits p)" "list_all (\<lambda>ls. ls \<noteq> []) (tlbSets st)"
    by simp_all
  from tlbIndex_range[OF sh(1), of "vmVpn p a"]
  have r: "0 \<le> ?idx" "?idx < 2 ^ nat (vp_tlbIndexBits p)" by simp_all
  then have "?i < nat (2 ^ nat (vp_tlbIndexBits p))" by (simp add: nat_less_iff)
  then have i: "?i < length (tlbSets st)" using sh(2) by (simp add: nat_power_eq)
  with sh(3) have ne: "?ls \<noteq> []" by (simp add: list_all_length)
  have keep: "\<And>ls'. ls' \<noteq> [] \<Longrightarrow> list_all (\<lambda>ls. ls \<noteq> []) ((tlbSets st)[?i := ls'])"
    using sh(3) set_update_subset_insert[of "tlbSets st" ?i] by (auto simp: list_all_iff)
  show ?thesis
  proof (cases "hitWay ?ls (tlbTagOf p (vmVpn p a))")
    case (Some w)
    from keep[of "?ls[w := (?ls ! w)\<lparr> lastUsed := vtime st + 1 \<rparr>]"] ne Some i r(1) True
    show ?thesis by (simp add: vmStep_def Let_def)
  next
    case None
    show ?thesis
    proof (cases "pageTable st (vmVpn p a)")
      case pn: None
      with None i r(1) True show ?thesis by (simp add: vmStep_def Let_def)
    next
      case (Some entry)
      let ?v = "pickVictimLRU ?ls"
      have v: "?v < length ?ls" using ne by (rule pickVictimLRU_lt)
      from keep[of "?ls[?v := (?ls ! ?v)\<lparr> valid := True, tag := tlbTagOf p (vmVpn p a),
                       lastUsed := vtime st + 1, ppn := pte_ppn entry, flags := pte_flags entry \<rparr>]"]
        ne None Some i r(1) v True
      show ?thesis by (simp add: vmStep_def Let_def)
    qed
  qed
qed

lemma vmLoop_total:
  assumes "vp_enableTLB p \<longrightarrow>
             0 \<le> vp_tlbIndexBits p \<and> length (tlbSets st) = 2 ^ nat (vp_tlbIndexBits p)
             \<and> list_all (\<lambda>ls. ls \<noteq> []) (tlbSets st)"
  shows "\<exists>st'. vmLoop p st as = Inr st'"
  using assms
proof (induction as arbitrary: st)
  case Nil
  then show ?case by simp
next
  case (Cons a as)
  from vmStep_total[OF Cons.prems, of a] obtain st1 where
    s: "vmStep p st a = Inr st1" and w: "length (tlbSets st1) = length (tlbSets st)"
    "list_all (\<lambda>ls. ls \<noteq> []) (tlbSets st) \<longrightarrow> list_all (\<lambda>ls. ls \<noteq> []) (tlbSets st1)"
    by blast
  from w Cons.prems have "vp_enableTLB p \<longrightarrow>
             0 \<le> vp_tlbIndexBits p \<and> length (tlbSets st1) = 2 ^ nat (vp_tlbIndexBits p)
             \<and> list_all (\<lambda>ls. ls \<noteq> []) (tlbSets st1)"
    by simp
  from Cons.IH[OF this] s show ?case by simp
qed

lemma map_length_update2: "map length (ss[i := (ss ! i)[w := x]]) = map length ss"
proof (cases "i < length ss")
  case True
  then have "(map length ss)[i := length (ss ! i)] = (map length ss)[i := map length ss ! i]"
    by simp
  then show ?thesis by (simp add: map_update)
next
  case False
  then have "length ss \<le> i" by simp
  then show ?thesis by (simp add: list_update_beyond)
qed

lemma applyTlbInitRows_shape:
  "applyTlbInitRows ss rows t = Inr ss' \<Longrightarrow> map length ss' = map length ss"
proof (induction rows arbitrary: ss t)
  case Nil
  then show ?case by simp
next
  case (Cons r rows)
  from Cons.prems show ?case
    by (auto simp: Let_def map_length_update2
             split: sum.splits option.splits if_splits dest!: Cons.IH)
qed


lemma tlbConfig_wf:
  assumes "tlbConfig s n = Inr tp" "tp_numSets tp < 2 ^ 32"
  shows "0 < tp_assoc tp \<and> 0 < tp_numSets tp \<and> 0 \<le> tp_indexBits tp
         \<and> tp_numSets tp = 2 ^ nat (tp_indexBits tp)"
proof -
  from assms(1) obtain e a where
    ea: "0 < a" "isPowerOfTwo (e div a)" "tp_assoc tp = a" "tp_numSets tp = e div a"
    "(if e div a = 1 then Inr 0 else log2IntPow2 (e div a)) = Inr (tp_indexBits tp)"
    by (auto simp: tlbConfig_def Let_def split: if_splits sum.splits)
  let ?n = "e div a"
  from ea(2,4) assms(2) pow2_index_bits[of ?n] obtain k where
    k: "k < 32" "?n = 2 ^ k" "log2IntPow2 ?n = Inr (int k)"
    by auto
  have "tp_indexBits tp = int k"
  proof (cases "?n = 1")
    case True
    with k(2) have "(2::int) ^ k = 1" by simp
    then have "k = 0" by (cases k) (simp_all, presburger)
    with True ea(5) show ?thesis by simp
  next
    case False
    with k(3) ea(5) show ?thesis by simp
  qed
  with ea k show ?thesis by simp
qed

lemma vmTlb_shape:
  assumes "vmTlb s n = Inr (ib, ts)" "vi_enableTLB s"
    and "\<forall>tp. tlbConfig s n = Inr tp \<longrightarrow> tp_numSets tp < 2 ^ 32"
  shows "0 \<le> ib \<and> length ts = 2 ^ nat ib \<and> list_all (\<lambda>ls. ls \<noteq> []) ts"
proof -
  from assms(1,2) obtain tp where tp: "tlbConfig s n = Inr tp" "ib = tp_indexBits tp"
    "applyTlbInitRows (initTLB (tp_numSets tp) (tp_assoc tp)) (vi_tlbInitRows s) 0 = Inr ts"
    by (auto simp: vmTlb_def split: sum.splits)
  from tp(1) assms(3) have "tp_numSets tp < 2 ^ 32" by blast
  from tlbConfig_wf[OF tp(1) this] have w: "0 < tp_assoc tp" "0 \<le> tp_indexBits tp"
    "tp_numSets tp = 2 ^ nat (tp_indexBits tp)" by simp_all
  from applyTlbInitRows_shape[OF tp(3)]
  have m: "map length ts = replicate (nat (tp_numSets tp)) (nat (tp_assoc tp))"
    by (simp add: initTLB_def)
  then have "length (map length ts) = nat (tp_numSets tp)" by simp
  then have len: "length ts = 2 ^ nat ib" using w(3) tp(2) by (simp add: nat_power_eq)
  have "list_all (\<lambda>ls. ls \<noteq> []) ts"
  proof -
    have "\<forall>n\<in>set (map length ts). 0 < n" using w(1) unfolding m by simp
    then show ?thesis by (auto simp: list_all_iff)
  qed
  with len w(2) tp(2) show ?thesis by simp
qed

lemma vmCompute_total:
  assumes "vmConfig s = Inr sp" "addrLines (vi_addresses s) \<noteq> []"
    and "parseAll (addrLines (vi_addresses s)) = Inr parsed"
    and "vmPageTable s = Inr pt" "vmTlb s (vs_vpnBits sp) = Inr (ib, ts)"
    and "\<forall>tp. tlbConfig s (vs_vpnBits sp) = Inr tp \<longrightarrow> tp_numSets tp < 2 ^ 32"
  shows "\<exists>out. vmCompute s = Inr out"
proof -
  let ?p = "\<lparr> vp_offsetBits = vs_offsetBits sp, vp_paBits = vs_paBits sp,
              vp_enableTLB = vi_enableTLB s, vp_tlbIndexBits = ib \<rparr>"
  let ?st = "\<lparr> tlbSets = ts, pageTable = pt, vtime = 0, tlbHits = 0, tlbMisses = 0,
              ptHits = 0, ptMisses = 0, vtrace = [] \<rparr>"
  have "vp_enableTLB ?p \<longrightarrow>
             0 \<le> vp_tlbIndexBits ?p \<and> length (tlbSets ?st) = 2 ^ nat (vp_tlbIndexBits ?p)
             \<and> list_all (\<lambda>ls. ls \<noteq> []) (tlbSets ?st)"
    using vmTlb_shape[OF assms(5) _ assms(6)] by simp
  from vmLoop_total[OF this] obtain fin where
    "vmLoop ?p ?st (map (\<lambda>a. clampBigIntToBits a (vs_vaBits sp)) parsed) = Inr fin"
    by blast
  with assms(1-5) show ?thesis by (simp add: vmCompute_def Let_def)
qed

lemma vmCompute_physical:
  assumes "vmCompute s = Inr out" "r \<in> set (vo_accesses out)" "va_ppn r = Some pp"
  shows "va_offset r = va_addr r mod 2 ^ nat (vs_offsetBits (vo_split out))"
    and "va_pa r = Some (take_bit (nat (vs_paBits (vo_split out)))
                           (push_bit (nat (vs_offsetBits (vo_split out))) pp OR va_offset r))"
    and "va_pa r = Some ((pp * 2 ^ nat (vs_offsetBits (vo_split out))
                            + va_addr r mod 2 ^ nat (vs_offsetBits (vo_split out)))
                          mod 2 ^ nat (vs_paBits (vo_split out)))"
proof -
  note rec = vmCompute_records [OF assms(1,2)]
  from rec show off: "va_offset r = va_addr r mod 2 ^ nat (vs_offsetBits (vo_split out))"
    by (simp add: and_maskBits take_bit_eq_mod)
  from rec assms(3)
  show pa: "va_pa r = Some (take_bit (nat (vs_paBits (vo_split out)))
                           (push_bit (nat (vs_offsetBits (vo_split out))) pp OR va_offset r))"
    by (simp add: clampBigIntToBits_take_bit)
  have "push_bit (nat (vs_offsetBits (vo_split out))) pp OR va_offset r
        = pp * 2 ^ nat (vs_offsetBits (vo_split out))
            + va_addr r mod 2 ^ nat (vs_offsetBits (vo_split out))"
    using frame_or_offset [of "nat (vs_offsetBits (vo_split out))" pp "va_addr r"] off
    by (simp add: take_bit_eq_mod)
  with pa show "va_pa r = Some ((pp * 2 ^ nat (vs_offsetBits (vo_split out))
                            + va_addr r mod 2 ^ nat (vs_offsetBits (vo_split out)))
                          mod 2 ^ nat (vs_paBits (vo_split out)))"
    by (simp add: take_bit_eq_mod)
qed

text \<open>
  Claim C4. For every access of a completed run that resolves to a page number \<open>pp\<close>, with
  page offset \<open>off\<close>, the physical address reported is
  \<^verbatim>\<open>clampToBits((pp << offsetBits) | off, paBits)\<close>, the offset being the low \<open>offsetBits\<close> bits
  of the address: in numbers, the address is \<open>(pp * 2^offsetBits + off) mod 2^paBits\<close> with
  \<open>off = addr mod 2^offsetBits\<close>, so the bits of the page number from \<open>paBits - offsetBits\<close>
  upwards are dropped. With \<^verbatim>\<open>vaBits = paBits = 32\<close>, \<^verbatim>\<open>pageSize = 4096\<close>, the TLB disabled and
  the page table \<^verbatim>\<open>0x1 0xA RWX\<close>, the address \<^verbatim>\<open>0x00001004\<close> has page number \<^verbatim>\<open>0x1\<close> and offset
  4, hits the page table and resolves to \<^verbatim>\<open>0x0000A004\<close>.
\<close>

theorem physical_address_of_resolved:
  "(vmCompute s = Inr out \<and> r \<in> set (vo_accesses out) \<and> va_ppn r = Some pp \<longrightarrow>
      va_offset r = va_addr r AND maskBits (vs_offsetBits (vo_split out))
      \<and> va_pa r = Some (clampBigIntToBits
                          (push_bit (nat (vs_offsetBits (vo_split out))) pp OR va_offset r)
                          (vs_paBits (vo_split out)))
      \<and> va_offset r = va_addr r mod 2 ^ nat (vs_offsetBits (vo_split out))
      \<and> va_pa r = Some (take_bit (nat (vs_paBits (vo_split out)))
                          (push_bit (nat (vs_offsetBits (vo_split out))) pp OR va_offset r))
      \<and> va_pa r = Some ((pp * 2 ^ nat (vs_offsetBits (vo_split out))
                            + va_addr r mod 2 ^ nat (vs_offsetBits (vo_split out)))
                         mod 2 ^ nat (vs_paBits (vo_split out))))
   \<and> vmCompute \<lparr> vi_vaBits = ''32'', vi_paBits = ''32'', vi_pageSize = ''4096'',
         vi_addresses = ''0x00001004'', vi_mappings = ''0x1 0xA RWX'', vi_ptInitRows = [],
         vi_enableTLB = False, vi_tlbEntries = ''16'', vi_tlbAssoc = ''4'',
         vi_tlbInitRows = [] \<rparr>
       = Inr \<lparr> vo_split = \<lparr> vs_vaBits = 32, vs_paBits = 32, vs_pageSize = 4096,
                             vs_offsetBits = 12, vs_vpnBits = 20 \<rparr>,
               vo_accesses =
                 [\<lparr> va_addr = 4100, va_vpn = 1, va_offset = 4, va_tlb = None, va_tlbIdx = 0,
                     va_tlbTag = 0, va_ppn = Some 10, va_flags = ''RWX'',
                     va_pa = Some 40964, va_paStr = Some ''0x0000A004'' \<rparr>],
               vo_tlbHits = 0, vo_tlbMisses = 0, vo_ptHits = 1, vo_ptMisses = 0,
               vo_tlbSets = [] \<rparr>"
proof (intro conjI impI)
  assume a: "vmCompute s = Inr out \<and> r \<in> set (vo_accesses out) \<and> va_ppn r = Some pp"
  then have c: "vmCompute s = Inr out" "r \<in> set (vo_accesses out)" and p: "va_ppn r = Some pp"
    by simp_all
  from vmCompute_records [OF c] p
  show "va_offset r = va_addr r AND maskBits (vs_offsetBits (vo_split out))"
    "va_pa r = Some (clampBigIntToBits
                          (push_bit (nat (vs_offsetBits (vo_split out))) pp OR va_offset r)
                          (vs_paBits (vo_split out)))"
    by simp_all
  from vmCompute_physical [OF c p]
  show "va_offset r = va_addr r mod 2 ^ nat (vs_offsetBits (vo_split out))"
    "va_pa r = Some (take_bit (nat (vs_paBits (vo_split out)))
                          (push_bit (nat (vs_offsetBits (vo_split out))) pp OR va_offset r))"
    "va_pa r = Some ((pp * 2 ^ nat (vs_offsetBits (vo_split out))
                            + va_addr r mod 2 ^ nat (vs_offsetBits (vo_split out)))
                         mod 2 ^ nat (vs_paBits (vo_split out)))"
    by simp_all
next
  show "vmCompute \<lparr> vi_vaBits = ''32'', vi_paBits = ''32'', vi_pageSize = ''4096'',
         vi_addresses = ''0x00001004'', vi_mappings = ''0x1 0xA RWX'', vi_ptInitRows = [],
         vi_enableTLB = False, vi_tlbEntries = ''16'', vi_tlbAssoc = ''4'',
         vi_tlbInitRows = [] \<rparr>
       = Inr \<lparr> vo_split = \<lparr> vs_vaBits = 32, vs_paBits = 32, vs_pageSize = 4096,
                             vs_offsetBits = 12, vs_vpnBits = 20 \<rparr>,
               vo_accesses =
                 [\<lparr> va_addr = 4100, va_vpn = 1, va_offset = 4, va_tlb = None, va_tlbIdx = 0,
                     va_tlbTag = 0, va_ppn = Some 10, va_flags = ''RWX'',
                     va_pa = Some 40964, va_paStr = Some ''0x0000A004'' \<rparr>],
               vo_tlbHits = 0, vo_tlbMisses = 0, vo_ptHits = 1, vo_ptMisses = 0,
               vo_tlbSets = [] \<rparr>"
    by code_simp
qed

text \<open>
  An instance in which the clamp changes the value: with \<^verbatim>\<open>paBits = 16\<close> the page number
  \<^verbatim>\<open>0x12345\<close> and the offset \<^verbatim>\<open>0xABC\<close> give \<^verbatim>\<open>0x12345ABC\<close> before the clamp and \<^verbatim>\<open>0x5ABC\<close>
  after it.
\<close>

theorem physical_address_of_resolved_witness:
  "vmCompute \<lparr> vi_vaBits = ''32'', vi_paBits = ''16'', vi_pageSize = ''4096'',
         vi_addresses = ''0x00001004'' @ [CHR 0x0A] @ ''0x00002abc'' @ [CHR 0x0A] @ ''0x1ff8'',
         vi_mappings = ''0x1 0xA RWX'' @ [CHR 0x0A] @ ''2 -> 0x12345, r'',
         vi_ptInitRows = [],
         vi_enableTLB = True, vi_tlbEntries = ''4'', vi_tlbAssoc = ''2'',
         vi_tlbInitRows = [] \<rparr>
       = Inr \<lparr> vo_split = \<lparr> vs_vaBits = 32, vs_paBits = 16, vs_pageSize = 4096,
                             vs_offsetBits = 12, vs_vpnBits = 20 \<rparr>,
               vo_accesses =
                 [\<lparr> va_addr = 4100, va_vpn = 1, va_offset = 4, va_tlb = Some MISS, va_tlbIdx = 1,
                     va_tlbTag = 0, va_ppn = Some 10, va_flags = ''RWX'',
                     va_pa = Some 40964, va_paStr = Some ''0xA004'' \<rparr>,
                  \<lparr> va_addr = 10940, va_vpn = 2, va_offset = 2748, va_tlb = Some MISS,
                     va_tlbIdx = 0, va_tlbTag = 1, va_ppn = Some 74565, va_flags = ''R'',
                     va_pa = Some 23228, va_paStr = Some ''0x5ABC'' \<rparr>,
                  \<lparr> va_addr = 8184, va_vpn = 1, va_offset = 4088, va_tlb = Some HIT, va_tlbIdx = 1,
                     va_tlbTag = 0, va_ppn = Some 10, va_flags = ''RWX'',
                     va_pa = Some 45048, va_paStr = Some ''0xAFF8'' \<rparr>],
               vo_tlbHits = 1, vo_tlbMisses = 2, vo_ptHits = 2, vo_ptMisses = 0,
               vo_tlbSets =
                 [[\<lparr> valid = True, tag = 1, lastUsed = 2, ppn = 74565, flags = ''R'' \<rparr>,
                   \<lparr> valid = False, tag = 0, lastUsed = 0, ppn = 0, flags = [] \<rparr>],
                  [\<lparr> valid = True, tag = 0, lastUsed = 3, ppn = 10, flags = ''RWX'' \<rparr>,
                   \<lparr> valid = False, tag = 0, lastUsed = 0, ppn = 0, flags = [] \<rparr>]] \<rparr>
   \<and> Some (23228 :: int) = Some (clampBigIntToBits (push_bit (nat 12) 74565 OR 2748) 16)
   \<and> Some (23228 :: int) = Some (take_bit (nat 16) (push_bit (nat 12) 74565 OR 2748))
   \<and> Some (23228 :: int) = Some ((74565 * 2 ^ nat 12 + 10940 mod 2 ^ nat 12) mod 2 ^ nat 16)
   \<and> (2748 :: int) = 10940 mod 2 ^ nat 12
   \<and> (74565 * 2 ^ nat 12 + 10940 mod 2 ^ nat 12 :: int) = 305420988"
proof -
  let ?s = "\<lparr> vi_vaBits = ''32'', vi_paBits = ''16'', vi_pageSize = ''4096'',
         vi_addresses = ''0x00001004'' @ [CHR 0x0A] @ ''0x00002abc'' @ [CHR 0x0A] @ ''0x1ff8'',
         vi_mappings = ''0x1 0xA RWX'' @ [CHR 0x0A] @ ''2 -> 0x12345, r'',
         vi_ptInitRows = [],
         vi_enableTLB = True, vi_tlbEntries = ''4'', vi_tlbAssoc = ''2'',
         vi_tlbInitRows = [] \<rparr>"
  let ?r = "\<lparr> va_addr = 10940, va_vpn = 2, va_offset = 2748, va_tlb = Some MISS,
                     va_tlbIdx = 0, va_tlbTag = 1, va_ppn = Some 74565, va_flags = ''R'',
                     va_pa = Some 23228, va_paStr = Some ''0x5ABC'' \<rparr>"
  let ?out = "\<lparr> vo_split = \<lparr> vs_vaBits = 32, vs_paBits = 16, vs_pageSize = 4096,
                             vs_offsetBits = 12, vs_vpnBits = 20 \<rparr>,
               vo_accesses =
                 [\<lparr> va_addr = 4100, va_vpn = 1, va_offset = 4, va_tlb = Some MISS, va_tlbIdx = 1,
                     va_tlbTag = 0, va_ppn = Some 10, va_flags = ''RWX'',
                     va_pa = Some 40964, va_paStr = Some ''0xA004'' \<rparr>,
                  ?r,
                  \<lparr> va_addr = 8184, va_vpn = 1, va_offset = 4088, va_tlb = Some HIT, va_tlbIdx = 1,
                     va_tlbTag = 0, va_ppn = Some 10, va_flags = ''RWX'',
                     va_pa = Some 45048, va_paStr = Some ''0xAFF8'' \<rparr>],
               vo_tlbHits = 1, vo_tlbMisses = 2, vo_ptHits = 2, vo_ptMisses = 0,
               vo_tlbSets =
                 [[\<lparr> valid = True, tag = 1, lastUsed = 2, ppn = 74565, flags = ''R'' \<rparr>,
                   \<lparr> valid = False, tag = 0, lastUsed = 0, ppn = 0, flags = [] \<rparr>],
                  [\<lparr> valid = True, tag = 0, lastUsed = 3, ppn = 10, flags = ''RWX'' \<rparr>,
                   \<lparr> valid = False, tag = 0, lastUsed = 0, ppn = 0, flags = [] \<rparr>]] \<rparr>"
  have run: "vmCompute ?s = Inr ?out"
    by code_simp
  have "vmCompute ?s = Inr ?out \<and> ?r \<in> set (vo_accesses ?out) \<and> va_ppn ?r = Some 74565"
    using run by simp
  with physical_address_of_resolved [of ?s ?out ?r 74565]
  have "va_offset ?r = va_addr ?r mod 2 ^ nat (vs_offsetBits (vo_split ?out))
      \<and> va_pa ?r = Some (clampBigIntToBits
                          (push_bit (nat (vs_offsetBits (vo_split ?out))) 74565 OR va_offset ?r)
                          (vs_paBits (vo_split ?out)))
      \<and> va_pa ?r = Some (take_bit (nat (vs_paBits (vo_split ?out)))
                          (push_bit (nat (vs_offsetBits (vo_split ?out))) 74565 OR va_offset ?r))
      \<and> va_pa ?r = Some ((74565 * 2 ^ nat (vs_offsetBits (vo_split ?out))
                            + va_addr ?r mod 2 ^ nat (vs_offsetBits (vo_split ?out)))
                         mod 2 ^ nat (vs_paBits (vo_split ?out)))"
    by blast
  with run show ?thesis by simp
qed

text \<open>
  Claim C6, as stated: every access whose page number is absent from the page table is
  recorded as a fault and counted as a page-table miss. A row of the initial TLB can hold a
  translation for a page number the page table does not map; the lookup then hits in the
  TLB, the page table is never consulted, and the access resolves. Below the page table is
  empty, the TLB is seeded with tag \<^verbatim>\<open>0x5\<close> and page \<^verbatim>\<open>0xB\<close>, and \<^verbatim>\<open>0x00005000\<close> resolves to
  \<^verbatim>\<open>0x0000B000\<close> with no page-table miss counted.
\<close>

theorem seeded_tlb_resolves_unmapped_page:
  "vmPageTable \<lparr> vi_vaBits = ''32'', vi_paBits = ''32'', vi_pageSize = ''4096'',
       vi_addresses = ''0x00005000'', vi_mappings = [], vi_ptInitRows = [],
       vi_enableTLB = True, vi_tlbEntries = ''1'', vi_tlbAssoc = ''1'',
       vi_tlbInitRows = [\<lparr> tr_set = ''0'', tr_way = ''0'', tr_tag = ''0x5'', tr_ppn = ''0xB'',
                           tr_flags = [], tr_lastUsed = [] \<rparr>] \<rparr>
     = Inr Map.empty
   \<and> vmCompute \<lparr> vi_vaBits = ''32'', vi_paBits = ''32'', vi_pageSize = ''4096'',
       vi_addresses = ''0x00005000'', vi_mappings = [], vi_ptInitRows = [],
       vi_enableTLB = True, vi_tlbEntries = ''1'', vi_tlbAssoc = ''1'',
       vi_tlbInitRows = [\<lparr> tr_set = ''0'', tr_way = ''0'', tr_tag = ''0x5'', tr_ppn = ''0xB'',
                           tr_flags = [], tr_lastUsed = [] \<rparr>] \<rparr>
     = Inr \<lparr> vo_split = \<lparr> vs_vaBits = 32, vs_paBits = 32, vs_pageSize = 4096,
                           vs_offsetBits = 12, vs_vpnBits = 20 \<rparr>,
             vo_accesses =
               [\<lparr> va_addr = 20480, va_vpn = 5, va_offset = 0, va_tlb = Some HIT, va_tlbIdx = 0,
                   va_tlbTag = 5, va_ppn = Some 11, va_flags = [],
                   va_pa = Some 45056, va_paStr = Some ''0x0000B000'' \<rparr>],
             vo_tlbHits = 1, vo_tlbMisses = 0, vo_ptHits = 0, vo_ptMisses = 0,
             vo_tlbSets = [[\<lparr> valid = True, tag = 5, lastUsed = 1, ppn = 11, flags = [] \<rparr>]] \<rparr>"
proof -
  have "vmPageTable \<lparr> vi_vaBits = ''32'', vi_paBits = ''32'', vi_pageSize = ''4096'',
       vi_addresses = ''0x00005000'', vi_mappings = [], vi_ptInitRows = [],
       vi_enableTLB = True, vi_tlbEntries = ''1'', vi_tlbAssoc = ''1'',
       vi_tlbInitRows = [\<lparr> tr_set = ''0'', tr_way = ''0'', tr_tag = ''0x5'', tr_ppn = ''0xB'',
                           tr_flags = [], tr_lastUsed = [] \<rparr>] \<rparr>
     = Inr Map.empty"
    by (simp add: vmPageTable_def parseMappings_def mappingLines_def splitLines_def trim_def)
  moreover have "vmCompute \<lparr> vi_vaBits = ''32'', vi_paBits = ''32'', vi_pageSize = ''4096'',
       vi_addresses = ''0x00005000'', vi_mappings = [], vi_ptInitRows = [],
       vi_enableTLB = True, vi_tlbEntries = ''1'', vi_tlbAssoc = ''1'',
       vi_tlbInitRows = [\<lparr> tr_set = ''0'', tr_way = ''0'', tr_tag = ''0x5'', tr_ppn = ''0xB'',
                           tr_flags = [], tr_lastUsed = [] \<rparr>] \<rparr>
     = Inr \<lparr> vo_split = \<lparr> vs_vaBits = 32, vs_paBits = 32, vs_pageSize = 4096,
                           vs_offsetBits = 12, vs_vpnBits = 20 \<rparr>,
             vo_accesses =
               [\<lparr> va_addr = 20480, va_vpn = 5, va_offset = 0, va_tlb = Some HIT, va_tlbIdx = 0,
                   va_tlbTag = 5, va_ppn = Some 11, va_flags = [],
                   va_pa = Some 45056, va_paStr = Some ''0x0000B000'' \<rparr>],
             vo_tlbHits = 1, vo_tlbMisses = 0, vo_ptHits = 0, vo_ptMisses = 0,
             vo_tlbSets = [[\<lparr> valid = True, tag = 5, lastUsed = 1, ppn = 11, flags = [] \<rparr>]] \<rparr>"
    by code_simp
  ultimately show ?thesis by (rule conjI)
qed

text \<open>
  Claim C6, amended. An access that does not hit in the TLB (the TLB is disabled, or the
  lookup finds no valid line with the tag) and whose page number is absent from the page
  table is recorded as a fault with no physical address; it adds one to the page-table-miss
  counter, leaves every line of the TLB and the page table as they were, and the loop goes
  on with the addresses that follow. No step of the loop changes the page table, and the
  loop produces one record per address. In a run with no TLB seed rows every access whose
  page number is absent from the page table is such a fault; and in every run the
  page-table-miss counter is the number of faults recorded.
\<close>

theorem fault_leaves_tlb_and_page_table:
  "(vmStep p st a = Inr st' \<and> pageTable st (vmVpn p a) = None
      \<and> (\<not> vp_enableTLB p
          \<or> hitWay (tlbSets st ! nat (tlbIndex p (vmVpn p a))) (tlbTagOf p (vmVpn p a)) = None)
     \<longrightarrow> tlbSets st' = tlbSets st \<and> pageTable st' = pageTable st
          \<and> ptMisses st' = ptMisses st + 1 \<and> ptHits st' = ptHits st
          \<and> tlbHits st' = tlbHits st
          \<and> (\<exists>r. vtrace st' = vtrace st @ [r] \<and> va_addr r = a \<and> va_vpn r = vmVpn p a
                 \<and> va_ppn r = None \<and> va_pa r = None \<and> va_paStr r = None)
          \<and> vmLoop p st (a # rest) = vmLoop p st' rest)
   \<and> (vmLoop p st as = Inr fin
     \<longrightarrow> pageTable fin = pageTable st
          \<and> length (vtrace fin) = length (vtrace st) + length as)
   \<and> (vi_tlbInitRows s = [] \<and> vmPageTable s = Inr pt \<and> vmCompute s = Inr out
        \<and> acc \<in> set (vo_accesses out) \<and> pt (va_vpn acc) = None
     \<longrightarrow> va_ppn acc = None \<and> va_pa acc = None \<and> va_paStr acc = None)
   \<and> (vmCompute s = Inr out
     \<longrightarrow> vo_ptMisses out = int (length (filter (\<lambda>r. va_ppn r = None) (vo_accesses out)))
          \<and> length (vo_accesses out) = length (addrLines (vi_addresses s)))"
proof (intro conjI)
  show "vmStep p st a = Inr st' \<and> pageTable st (vmVpn p a) = None
      \<and> (\<not> vp_enableTLB p
          \<or> hitWay (tlbSets st ! nat (tlbIndex p (vmVpn p a))) (tlbTagOf p (vmVpn p a)) = None)
     \<longrightarrow> tlbSets st' = tlbSets st \<and> pageTable st' = pageTable st
          \<and> ptMisses st' = ptMisses st + 1 \<and> ptHits st' = ptHits st
          \<and> tlbHits st' = tlbHits st
          \<and> (\<exists>r. vtrace st' = vtrace st @ [r] \<and> va_addr r = a \<and> va_vpn r = vmVpn p a
                 \<and> va_ppn r = None \<and> va_pa r = None \<and> va_paStr r = None)
          \<and> vmLoop p st (a # rest) = vmLoop p st' rest"
    using vmStep_fault_frame [of p st a st' rest] by blast
next
  show "vmLoop p st as = Inr fin
     \<longrightarrow> pageTable fin = pageTable st
          \<and> length (vtrace fin) = length (vtrace st) + length as"
    using vmLoop_pageTable [of p st as fin] vmLoop_trace [of p st as fin] by auto
next
  show "vi_tlbInitRows s = [] \<and> vmPageTable s = Inr pt \<and> vmCompute s = Inr out
        \<and> acc \<in> set (vo_accesses out) \<and> pt (va_vpn acc) = None
     \<longrightarrow> va_ppn acc = None \<and> va_pa acc = None \<and> va_paStr acc = None"
    using vmCompute_unseeded_fault [of s pt out acc] by blast
next
  show "vmCompute s = Inr out
     \<longrightarrow> vo_ptMisses out = int (length (filter (\<lambda>r. va_ppn r = None) (vo_accesses out)))
          \<and> length (vo_accesses out) = length (addrLines (vi_addresses s))"
    using vmCompute_ptMisses [of s out] by blast
qed


theorem fault_leaves_tlb_and_page_table_witness:
  "(\<exists>st'. vmStep \<lparr> vp_offsetBits = 12, vp_paBits = 32, vp_enableTLB = True, vp_tlbIndexBits = 1 \<rparr>
            \<lparr> tlbSets = [[\<lparr> valid = False, tag = 0, lastUsed = 0, ppn = 0, flags = [] \<rparr>],
                        [\<lparr> valid = True, tag = 0, lastUsed = 1, ppn = 10, flags = ''RWX'' \<rparr>]],
             pageTable = [1 \<mapsto> \<lparr> pte_ppn = 10, pte_flags = ''RWX'' \<rparr>],
             vtime = 1, tlbHits = 0, tlbMisses = 1, ptHits = 1, ptMisses = 0, vtrace = [] \<rparr>
            20480 = Inr st'
         \<and> tlbSets st'
             = [[\<lparr> valid = False, tag = 0, lastUsed = 0, ppn = 0, flags = [] \<rparr>],
                [\<lparr> valid = True, tag = 0, lastUsed = 1, ppn = 10, flags = ''RWX'' \<rparr>]]
         \<and> ptMisses st' = 1 \<and> ptHits st' = 1)
   \<and> vmCompute \<lparr> vi_vaBits = ''32'', vi_paBits = ''32'', vi_pageSize = ''4096'',
         vi_addresses = ''0x00005000'' @ [CHR 0x0A] @ ''0x00001004'',
         vi_mappings = ''0x1 0xA RWX'', vi_ptInitRows = [],
         vi_enableTLB = False, vi_tlbEntries = ''16'', vi_tlbAssoc = ''4'',
         vi_tlbInitRows = [] \<rparr>
       = Inr \<lparr> vo_split = \<lparr> vs_vaBits = 32, vs_paBits = 32, vs_pageSize = 4096,
                             vs_offsetBits = 12, vs_vpnBits = 20 \<rparr>,
               vo_accesses =
                 [\<lparr> va_addr = 20480, va_vpn = 5, va_offset = 0, va_tlb = None, va_tlbIdx = 0,
                     va_tlbTag = 0, va_ppn = None, va_flags = [],
                     va_pa = None, va_paStr = None \<rparr>,
                  \<lparr> va_addr = 4100, va_vpn = 1, va_offset = 4, va_tlb = None, va_tlbIdx = 0,
                     va_tlbTag = 0, va_ppn = Some 10, va_flags = ''RWX'',
                     va_pa = Some 40964, va_paStr = Some ''0x0000A004'' \<rparr>],
               vo_tlbHits = 0, vo_tlbMisses = 0, vo_ptHits = 1, vo_ptMisses = 1,
               vo_tlbSets = [] \<rparr>
   \<and> (1 :: int) = int (length (filter (\<lambda>r. va_ppn r = None) (vo_accesses \<lparr> vo_split = \<lparr> vs_vaBits = 32, vs_paBits = 32, vs_pageSize = 4096,
                             vs_offsetBits = 12, vs_vpnBits = 20 \<rparr>,
               vo_accesses =
                 [\<lparr> va_addr = 20480, va_vpn = 5, va_offset = 0, va_tlb = None, va_tlbIdx = 0,
                     va_tlbTag = 0, va_ppn = None, va_flags = [],
                     va_pa = None, va_paStr = None \<rparr>,
                  \<lparr> va_addr = 4100, va_vpn = 1, va_offset = 4, va_tlb = None, va_tlbIdx = 0,
                     va_tlbTag = 0, va_ppn = Some 10, va_flags = ''RWX'',
                     va_pa = Some 40964, va_paStr = Some ''0x0000A004'' \<rparr>],
               vo_tlbHits = 0, vo_tlbMisses = 0, vo_ptHits = 1, vo_ptMisses = 1,
               vo_tlbSets = [] \<rparr>)))"
proof -
  let ?p = "\<lparr> vp_offsetBits = 12, vp_paBits = 32, vp_enableTLB = True, vp_tlbIndexBits = 1 \<rparr>"
  let ?st = "\<lparr> tlbSets = [[\<lparr> valid = False, tag = 0, lastUsed = 0, ppn = 0, flags = [] \<rparr>],
                        [\<lparr> valid = True, tag = 0, lastUsed = 1, ppn = 10, flags = ''RWX'' \<rparr>]],
             pageTable = [1 \<mapsto> \<lparr> pte_ppn = 10, pte_flags = ''RWX'' \<rparr>],
             vtime = 1, tlbHits = 0, tlbMisses = 1, ptHits = 1, ptMisses = 0, vtrace = [] \<rparr>"
  let ?s = "\<lparr> vi_vaBits = ''32'', vi_paBits = ''32'', vi_pageSize = ''4096'',
         vi_addresses = ''0x00005000'' @ [CHR 0x0A] @ ''0x00001004'',
         vi_mappings = ''0x1 0xA RWX'', vi_ptInitRows = [],
         vi_enableTLB = False, vi_tlbEntries = ''16'', vi_tlbAssoc = ''4'',
         vi_tlbInitRows = [] \<rparr>"
  let ?f = "\<lparr> va_addr = 20480, va_vpn = 5, va_offset = 0, va_tlb = None, va_tlbIdx = 0,
                     va_tlbTag = 0, va_ppn = None, va_flags = [],
                     va_pa = None, va_paStr = None \<rparr>"
  let ?out = "\<lparr> vo_split = \<lparr> vs_vaBits = 32, vs_paBits = 32, vs_pageSize = 4096,
                             vs_offsetBits = 12, vs_vpnBits = 20 \<rparr>,
               vo_accesses =
                 [\<lparr> va_addr = 20480, va_vpn = 5, va_offset = 0, va_tlb = None, va_tlbIdx = 0,
                     va_tlbTag = 0, va_ppn = None, va_flags = [],
                     va_pa = None, va_paStr = None \<rparr>,
                  \<lparr> va_addr = 4100, va_vpn = 1, va_offset = 4, va_tlb = None, va_tlbIdx = 0,
                     va_tlbTag = 0, va_ppn = Some 10, va_flags = ''RWX'',
                     va_pa = Some 40964, va_paStr = Some ''0x0000A004'' \<rparr>],
               vo_tlbHits = 0, vo_tlbMisses = 0, vo_ptHits = 1, vo_ptMisses = 1,
               vo_tlbSets = [] \<rparr>"
  have "vp_enableTLB ?p \<longrightarrow>
          0 \<le> vp_tlbIndexBits ?p \<and> length (tlbSets ?st) = 2 ^ nat (vp_tlbIndexBits ?p)
          \<and> list_all (\<lambda>ls. ls \<noteq> []) (tlbSets ?st)"
    by simp
  from vmStep_total [OF this, of 20480] obtain st' where step: "vmStep ?p ?st 20480 = Inr st'"
    by blast
  have absent: "pageTable ?st (vmVpn ?p 20480) = None"
    by code_simp
  have miss: "hitWay (tlbSets ?st ! nat (tlbIndex ?p (vmVpn ?p 20480)))
                (tlbTagOf ?p (vmVpn ?p 20480)) = None"
    by code_simp
  from fault_leaves_tlb_and_page_table [of ?p ?st 20480 st'] step absent miss
  have a: "tlbSets st' = tlbSets ?st" "ptMisses st' = ptMisses ?st + 1" "ptHits st' = ptHits ?st"
    by blast+
  have run: "vmCompute ?s = Inr ?out"
    by code_simp
  have look: "case vmPageTable ?s of Inl e \<Rightarrow> False | Inr pt \<Rightarrow> pt 5 = None"
    by code_simp
  then obtain pt where pt: "vmPageTable ?s = Inr pt" "pt 5 = None"
    by (cases "vmPageTable ?s") simp_all
  have "vi_tlbInitRows ?s = [] \<and> vmPageTable ?s = Inr pt \<and> vmCompute ?s = Inr ?out
        \<and> ?f \<in> set (vo_accesses ?out) \<and> pt (va_vpn ?f) = None"
    using run pt by simp
  with fault_leaves_tlb_and_page_table [of _ _ _ _ _ _ _ ?s pt ?out ?f]
  have c: "va_ppn ?f = None \<and> va_pa ?f = None \<and> va_paStr ?f = None"
    by blast
  from fault_leaves_tlb_and_page_table [of _ _ _ _ _ _ _ ?s _ ?out] run
  have d: "vo_ptMisses ?out = int (length (filter (\<lambda>r. va_ppn r = None) (vo_accesses ?out)))"
    by blast
  from step a have "\<exists>st'. vmStep ?p ?st 20480 = Inr st' \<and> tlbSets st' = tlbSets ?st
         \<and> ptMisses st' = 1 \<and> ptHits st' = 1"
    by simp
  with run d show ?thesis by simp
qed

end
